theory Spec2Isabelle
  imports
    Main
    "HOL-Library.Word"
    "HOL-Library.Char_ord"
    "HOL-Library.List_Lexorder"
    "HOL-Library.Multiset"
begin

section \<open>Bytes, digests and the formatting verbs of \<^verbatim>\<open>fmt\<close>\<close>

text \<open>
  A Go \<^verbatim>\<open>string\<close> and a \<^verbatim>\<open>[]byte\<close> are both sequences of bytes; an Isabelle
  \<^typ>\<open>char\<close> is one byte, so both are modelled as \<^typ>\<open>string\<close>. With
  \<^theory_text>\<open>Char_ord\<close> and \<^theory_text>\<open>List_Lexorder\<close> the order \<open><\<close> on \<^typ>\<open>string\<close> is the
  byte-wise lexicographic order that Go's \<^verbatim>\<open><\<close> on strings computes.

  A \<^verbatim>\<open>[20]byte\<close> is a 160-bit word, most significant byte first: the type fixes the
  length, as the array type does in Go.
\<close>

type_synonym digest = "160 word"

abbreviation NUL :: char where "NUL \<equiv> CHR 0x00"
abbreviation LF :: char where "LF \<equiv> CHR 0x0A"

definition ldigits :: string where
  "ldigits = ''0123456789abcdef''"

text \<open>\<^verbatim>\<open>%d\<close> of a non-negative value.\<close>

function fmt_dec :: "nat \<Rightarrow> string" where
  "fmt_dec n = (if n < 10 then [ldigits ! n] else fmt_dec (n div 10) @ [ldigits ! (n mod 10)])"
  by pat_completeness auto
termination
  by (relation "measure id") auto

declare fmt_dec.simps [simp del]

text \<open>\<^verbatim>\<open>%d\<close> of an \<^verbatim>\<open>int64\<close> (the Unix time).\<close>

definition fmt_d :: "int \<Rightarrow> string" where
  "fmt_d i = (if i < 0 then CHR ''-'' # fmt_dec (nat (- i)) else fmt_dec (nat i))"

text \<open>\<^verbatim>\<open>%o\<close> of a non-negative value.\<close>

function fmt_o :: "nat \<Rightarrow> string" where
  "fmt_o n = (if n < 8 then [ldigits ! n] else fmt_o (n div 8) @ [ldigits ! (n mod 8)])"
  by pat_completeness auto
termination
  by (relation "measure id") auto

declare fmt_o.simps [simp del]

text \<open>\<^verbatim>\<open>%s\<close> of a \<^verbatim>\<open>[20]byte\<close>: the twenty raw bytes.\<close>

definition digest_bytes :: "digest \<Rightarrow> string" where
  "digest_bytes d = map (\<lambda>i. char_of (unat (drop_bit (8 * (19 - i)) d))) [0..<20]"

text \<open>\<^verbatim>\<open>%x\<close> of a \<^verbatim>\<open>[20]byte\<close>: two lower-case hexadecimal digits per byte.\<close>

definition hex_byte :: "char \<Rightarrow> string" where
  "hex_byte c = [ldigits ! (of_char c div 16), ldigits ! (of_char c mod (16::nat))]"

definition fmt_x :: "digest \<Rightarrow> string" where
  "fmt_x d = concat (map hex_byte (digest_bytes d))"

text \<open>\<^verbatim>\<open>bytes.IndexByte\<close> and \<^verbatim>\<open>strings.IndexByte\<close>; \<open>None\<close> is Go's \<open>-1\<close>.\<close>

fun IndexByte :: "string \<Rightarrow> char \<Rightarrow> nat option" where
  "IndexByte [] c = None"
| "IndexByte (x # xs) c = (if x = c then Some 0 else map_option Suc (IndexByte xs c))"

section \<open>The libraries the program calls\<close>

text \<open>
  \<^verbatim>\<open>crypto/sha1\<close> and \<^verbatim>\<open>compress/zlib\<close> are not code of this program; they are
  parameters of the model. \<open>zlib_Reader\<close> is \<^verbatim>\<open>zlib.NewReader\<close> followed by
  \<^verbatim>\<open>ioutil.ReadAll\<close>: \<open>None\<close> when \<^verbatim>\<open>NewReader\<close> rejects the stream's header,
  otherwise the bytes read and whether \<^verbatim>\<open>ReadAll\<close> returned no error.
\<close>

record codec =
  sha1_Sum :: "string \<Rightarrow> digest"
  zlib_Writer :: "string \<Rightarrow> string"
  zlib_Reader :: "string \<Rightarrow> (string \<times> bool) option"

section \<open>The file system under the working directory\<close>

text \<open>
  Paths are lists of components relative to the working directory. A file system maps a
  path to what is there. Permissions and full disks are left out: the errors of the model
  are the ones the directory structure itself causes.
\<close>

datatype errno = ENOENT | ENOTDIR | EISDIR | EACCES | EIO

datatype fobj = FileObj string | DirObj

type_synonym path = "string list"
type_synonym fs = "path \<Rightarrow> fobj option"

text \<open>Path resolution from the directory \<open>pre\<close>, through the components left.\<close>

fun lookup :: "fs \<Rightarrow> path \<Rightarrow> path \<Rightarrow> errno + fobj" where
  "lookup s pre [] = Inr DirObj"
| "lookup s pre (c # cs) =
     (case s (pre @ [c]) of
        None \<Rightarrow> Inl ENOENT
      | Some DirObj \<Rightarrow> lookup s (pre @ [c]) cs
      | Some (FileObj b) \<Rightarrow> if cs = [] then Inr (FileObj b) else Inl ENOTDIR)"

definition os_Stat :: "fs \<Rightarrow> path \<Rightarrow> errno + fobj" where
  "os_Stat s p = lookup s [] p"

text \<open>\<^verbatim>\<open>os.MkdirAll\<close>: creates every missing directory on the way, fails at a file.\<close>

fun MkdirAll :: "path \<Rightarrow> path \<Rightarrow> fs \<Rightarrow> errno option \<times> fs" where
  "MkdirAll pre [] s = (None, s)"
| "MkdirAll pre (c # cs) s =
     (case s (pre @ [c]) of
        None \<Rightarrow> MkdirAll (pre @ [c]) cs (s(pre @ [c] \<mapsto> DirObj))
      | Some DirObj \<Rightarrow> MkdirAll (pre @ [c]) cs s
      | Some (FileObj b) \<Rightarrow> (Some ENOTDIR, s))"

definition os_MkdirAll :: "path \<Rightarrow> fs \<Rightarrow> errno option \<times> fs" where
  "os_MkdirAll p s = MkdirAll [] p s"

text \<open>\<^verbatim>\<open>os.WriteFile\<close>: creates or truncates the file; its directory must exist.\<close>

definition os_WriteFile :: "path \<Rightarrow> string \<Rightarrow> fs \<Rightarrow> errno option \<times> fs" where
  "os_WriteFile p data s =
     (case os_Stat s (butlast p) of
        Inl e \<Rightarrow> (Some e, s)
      | Inr (FileObj b) \<Rightarrow> (Some ENOTDIR, s)
      | Inr DirObj \<Rightarrow>
          (case s p of
             Some DirObj \<Rightarrow> (Some EISDIR, s)
           | _ \<Rightarrow> (None, s(p \<mapsto> FileObj data))))"

text \<open>\<^verbatim>\<open>os.Open\<close> and reading the file to its end.\<close>

definition os_Read :: "fs \<Rightarrow> path \<Rightarrow> errno + string" where
  "os_Read s p =
     (case os_Stat s p of
        Inl e \<Rightarrow> Inl e
      | Inr DirObj \<Rightarrow> Inl EISDIR
      | Inr (FileObj b) \<Rightarrow> Inr b)"

section \<open>The object store\<close>

text \<open>
  \<^verbatim>\<open>path.Join(".git", "objects", sha[:2], sha[2:])\<close> for the forty hexadecimal digits
  of a digest, and the bucket directory \<^verbatim>\<open>path.Join(".git", "objects", sha[:2])\<close>.
\<close>

definition object_path :: "string \<Rightarrow> path" where
  "object_path sha = [''.git'', ''objects'', take 2 sha, drop 2 sha]"

definition bucket_path :: "string \<Rightarrow> path" where
  "bucket_path sha = [''.git'', ''objects'', take 2 sha]"

text \<open>
  The write that ends \<^verbatim>\<open>hash_file\<close> (lines 54-62), \<^verbatim>\<open>hash_dir\<close> (124-132),
  \<^verbatim>\<open>commit_tree\<close> (171-179) and \<^verbatim>\<open>hash-object\<close> (262-271): the bucket is created when
  \<^verbatim>\<open>os.Stat\<close> reports that the entry does not exist, and \<^verbatim>\<open>os.WriteFile\<close> runs
  in every case.
\<close>

definition store_put :: "string \<Rightarrow> string \<Rightarrow> fs \<Rightarrow> errno option \<times> fs" where
  "store_put sha data s =
     (case (if os_Stat s (object_path sha) = Inl ENOENT
            then os_MkdirAll (bucket_path sha) s else (None, s)) of
        (Some e, s') \<Rightarrow> (Some e, s')
      | (None, s') \<Rightarrow> os_WriteFile (object_path sha) data s')"

section \<open>\<^verbatim>\<open>hash_file\<close>\<close>

definition blob_object :: "string \<Rightarrow> string" where
  "blob_object fileContents = (''blob '' @ fmt_dec (length fileContents) @ [NUL]) @ fileContents"

text \<open>The first argument is what \<^verbatim>\<open>os.ReadFile(filePath)\<close> returned.\<close>

definition hash_file :: "codec \<Rightarrow> errno + string \<Rightarrow> fs \<Rightarrow> (errno + digest) \<times> fs" where
  "hash_file env rd s =
     (case rd of
        Inl err \<Rightarrow> (Inl err, s)
      | Inr fileContents \<Rightarrow>
          (let storeContents = blob_object fileContents;
               rawSha = sha1_Sum env storeContents;
               blobSha = fmt_x rawSha
           in case store_put blobSha (zlib_Writer env storeContents) s of
                (Some err, s') \<Rightarrow> (Inl err, s')
              | (None, s') \<Rightarrow> (Inr rawSha, s')))"

section \<open>\<^verbatim>\<open>hash_dir\<close>\<close>

text \<open>
  What \<^verbatim>\<open>hash_dir\<close> reads: the directory tree below its argument. An entry that is not
  a directory carries its type and what \<^verbatim>\<open>os.ReadFile\<close> returns for it (for a symbolic
  link, the bytes of its target, or the error of following it); a directory carries the
  listing \<^verbatim>\<open>os.ReadDir\<close> returns, or the error.
\<close>

datatype ftype = Regular | Symlink | Special

datatype node =
    NonDir ftype "errno + string"
  | Dir "(string \<times> node) list"
  | BadDir errno

fun IsDir :: "node \<Rightarrow> bool" where
  "IsDir (NonDir t rd) = False"
| "IsDir (Dir files) = True"
| "IsDir (BadDir e) = True"

text \<open>Line 99: \<^verbatim>\<open>fmt.Sprintf("%o %s\x00%s", mode, file.Name(), sha)\<close>.\<close>

definition tree_entry :: "nat \<Rightarrow> string \<Rightarrow> digest \<Rightarrow> string" where
  "tree_entry mode name sha = fmt_o mode @ '' '' @ name @ [NUL] @ digest_bytes sha"

definition mode_regular :: nat where
  "mode_regular = 33188"

definition mode_directory :: nat where
  "mode_directory = 16384"

text \<open>Lines 101-103: the key each entry is compared by, what follows its first space.\<close>

definition entry_key :: "string \<Rightarrow> string" where
  "entry_key entry =
     (case IndexByte entry (CHR '' '') of None \<Rightarrow> entry | Some i \<Rightarrow> drop (i + 1) entry)"

text \<open>
  \<^verbatim>\<open>sort.Slice\<close> returns a permutation in which no entry's key is greater than a later
  one's. It is not stable; insertion sort by the key is the same list whenever the keys
  are pairwise distinct (lemma \<open>sort_Slice_unique\<close> below).
\<close>

definition sort_Slice :: "string list \<Rightarrow> string list" where
  "sort_Slice entries = sort_key entry_key entries"

text \<open>Lines 105-113: the serialized tree object.\<close>

definition tree_contents :: "string list \<Rightarrow> string" where
  "tree_contents entries = concat (sort_Slice entries)"

definition encode_tree :: "string list \<Rightarrow> string" where
  "encode_tree entries =
     (''tree '' @ fmt_dec (length (tree_contents entries)) @ [NUL]) @ tree_contents entries"

text \<open>Lines 101-133.\<close>

definition write_tree :: "codec \<Rightarrow> string list \<Rightarrow> fs \<Rightarrow> (errno + digest) \<times> fs" where
  "write_tree env entries s =
     (let b = encode_tree entries;
          rawSha = sha1_Sum env b;
          treeSha = fmt_x rawSha
      in case store_put treeSha (zlib_Writer env b) s of
           (Some err, s') \<Rightarrow> (Inl err, s')
         | (None, s') \<Rightarrow> (Inr rawSha, s'))"

text \<open>
  \<^verbatim>\<open>hash_dir\<close> on the tree at \<^verbatim>\<open>rootPath\<close>, and its loop over the listing with the
  entries collected so far.
\<close>

fun hash_dir :: "codec \<Rightarrow> node \<Rightarrow> fs \<Rightarrow> (errno + digest) \<times> fs"
and hash_entries ::
  "codec \<Rightarrow> (string \<times> node) list \<Rightarrow> string list \<Rightarrow> fs \<Rightarrow> (errno + string list) \<times> fs"
where
  "hash_dir env (BadDir err) s = (Inl err, s)"
| "hash_dir env (NonDir t rd) s = (Inl ENOTDIR, s)"
| "hash_dir env (Dir files) s =
     (case hash_entries env files [] s of
        (Inl err, s') \<Rightarrow> (Inl err, s')
      | (Inr entries, s') \<Rightarrow> write_tree env entries s')"
| "hash_entries env [] entries s = (Inr entries, s)"
| "hash_entries env (file # rest) entries s =
     (if fst file = ''.git'' then hash_entries env rest entries s
      else if IsDir (snd file) then
        (case hash_dir env (snd file) s of
           (Inl err, s') \<Rightarrow> (Inl err, s')
         | (Inr treeSha, s') \<Rightarrow>
             hash_entries env rest (entries @ [tree_entry mode_directory (fst file) treeSha]) s')
      else
        (case hash_file env (case snd file of NonDir t rd \<Rightarrow> rd | _ \<Rightarrow> Inl EISDIR) s of
           (Inl err, s') \<Rightarrow> (Inl err, s')
         | (Inr fileSha, s') \<Rightarrow>
             hash_entries env rest (entries @ [tree_entry mode_regular (fst file) fileSha]) s'))"

section \<open>\<^verbatim>\<open>commit_tree\<close>\<close>

text \<open>
  Lines 137-153. \<open>timestamp\<close> is \<^verbatim>\<open>time.Now().Unix()\<close> and \<open>timezone_offset\<close> is
  \<^verbatim>\<open>time.Now().Format("-0700")\<close>.
\<close>

definition commit_payload :: "string \<Rightarrow> string \<Rightarrow> string \<Rightarrow> int \<Rightarrow> string \<Rightarrow> string" where
  "commit_payload sha_tree sha_parent message timestamp timezone_offset =
     (let author = ''author Bocchi! The Rock <bocchi@therock.com> '' @ fmt_d timestamp
                   @ '' '' @ timezone_offset;
          committer = ''committer Bocchi! The Rock <bocchi@therock.com> '' @ fmt_d timestamp
                   @ '' '' @ timezone_offset
      in (''tree '' @ sha_tree @ [LF])
         @ (if sha_parent \<noteq> [] then ''parent '' @ sha_parent @ [LF] else [])
         @ (''author '' @ author @ [LF])
         @ (''committer '' @ committer @ [LF])
         @ (if message \<noteq> [] then [LF] @ message @ [LF] else []))"

text \<open>Lines 155-181.\<close>

definition commit_tree ::
  "codec \<Rightarrow> string \<Rightarrow> string \<Rightarrow> string \<Rightarrow> int \<Rightarrow> string \<Rightarrow> fs \<Rightarrow> (errno + digest) \<times> fs" where
  "commit_tree env sha_tree sha_parent message timestamp timezone_offset s =
     (let commit = commit_payload sha_tree sha_parent message timestamp timezone_offset;
          raw_sha = sha1_Sum env commit;
          commit_sha = fmt_x raw_sha;
          b = (''commit '' @ fmt_dec (length commit) @ [NUL]) @ commit
      in case store_put commit_sha (zlib_Writer env b) s of
           (Some err, s') \<Rightarrow> (Inl err, s')
         | (None, s') \<Rightarrow> (Inr raw_sha, s'))"

section \<open>The commands of \<^verbatim>\<open>main\<close>\<close>

text \<open>
  A command ends by returning from \<^verbatim>\<open>main\<close>, by \<^verbatim>\<open>os.Exit(1)\<close> or by a run-time
  panic; the model keeps how it ended and what it wrote to standard output. Standard
  error is not modelled.
\<close>

datatype ending = Returned | Exit1 | Panicked

datatype go_panic = SliceBoundsOutOfRange

text \<open>\<^verbatim>\<open>hash-object\<close>, lines 244-272; \<open>rd\<close> is what \<^verbatim>\<open>os.ReadFile(filename)\<close> returned.\<close>

definition hash_object :: "codec \<Rightarrow> errno + string \<Rightarrow> fs \<Rightarrow> (ending \<times> string) \<times> fs" where
  "hash_object env rd s =
     (let data = (case rd of Inl err \<Rightarrow> [] | Inr dat \<Rightarrow> dat);
          content = (''blob '' @ fmt_dec (length data) @ [NUL]) @ data;
          sha_data = fmt_x (sha1_Sum env content)
      in case store_put sha_data (zlib_Writer env content) s of
           (Some err, s') \<Rightarrow> ((Exit1, []), s')
         | (None, s') \<Rightarrow> ((Returned, sha_data @ [LF]), s'))"

text \<open>\<^verbatim>\<open>cat-file\<close>, lines 213-236.\<close>

definition cat_file :: "codec \<Rightarrow> string \<Rightarrow> fs \<Rightarrow> ending \<times> string" where
  "cat_file env blob_sha s =
     (if length blob_sha < 2 then (Panicked, [])
      else case os_Read s (object_path blob_sha) of
        Inl err \<Rightarrow> (Exit1, [])
      | Inr stored \<Rightarrow>
          (case zlib_Reader env stored of
             None \<Rightarrow> (Exit1, [])
           | Some (contents, ok) \<Rightarrow>
               (let index = (case IndexByte contents NUL of None \<Rightarrow> 0 | Some i \<Rightarrow> i + 1);
                    data = drop index contents
                in (Returned, data @ [LF]))))"

text \<open>
  The loop of \<^verbatim>\<open>ls-tree\<close>, lines 306-319. \<^verbatim>\<open>contents[:space_index]\<close> and
  \<^verbatim>\<open>contents[:null_index]\<close> panic when the index is \<open>-1\<close>. With fewer than twenty bytes
  left, \<^verbatim>\<open>contents[:20]\<close> panics when the capacity is below twenty, and otherwise
  \<^verbatim>\<open>contents[len(path_sha):]\<close> panics, twenty being beyond the length.
\<close>

function ls_tree_loop :: "string \<Rightarrow> string list \<Rightarrow> go_panic + string list" where
  "ls_tree_loop contents paths =
     (if contents = [] then Inr paths
      else case IndexByte contents (CHR '' '') of
        None \<Rightarrow> Inl SliceBoundsOutOfRange
      | Some space_index \<Rightarrow>
          (let mode = take space_index contents;
               contents1 = drop (length mode + 1) contents
           in case IndexByte contents1 NUL of
                None \<Rightarrow> Inl SliceBoundsOutOfRange
              | Some null_index \<Rightarrow>
                  (let path = take null_index contents1;
                       contents2 = drop (length path + 1) contents1
                   in if length contents2 < 20 then Inl SliceBoundsOutOfRange
                      else ls_tree_loop (drop 20 contents2) (paths @ [path]))))"
  by pat_completeness auto
termination
  by (relation "measure (\<lambda>(contents, paths). length contents)") auto

declare ls_tree_loop.simps [simp del]

text \<open>Lines 301-302: the header is cut at the first null byte.\<close>

definition strip_header :: "string \<Rightarrow> string" where
  "strip_header contents =
     (case IndexByte contents NUL of None \<Rightarrow> contents | Some header_index \<Rightarrow> drop (header_index + 1) contents)"

text \<open>\<^verbatim>\<open>ls-tree\<close>, lines 280-323: one name per line.\<close>

definition ls_tree :: "codec \<Rightarrow> string \<Rightarrow> fs \<Rightarrow> ending \<times> string" where
  "ls_tree env tree_sha s =
     (if length tree_sha < 2 then (Panicked, [])
      else case os_Read s (object_path tree_sha) of
        Inl err \<Rightarrow> (Exit1, [])
      | Inr stored \<Rightarrow>
          (case zlib_Reader env stored of
             None \<Rightarrow> (Exit1, [])
           | Some (contents, ok) \<Rightarrow>
               if \<not> ok then (Exit1, [])
               else (case ls_tree_loop (strip_header contents) [] of
                       Inl SliceBoundsOutOfRange \<Rightarrow> (Panicked, [])
                     | Inr paths \<Rightarrow> (Returned, concat (map (\<lambda>name. name @ [LF]) paths)))))"

section \<open>Vocabulary of the properties\<close>

text \<open>
  Text as lines: \<open>unlines\<close> ends every line with a newline, \<open>text_lines\<close> cuts a text
  at its newlines (a last line that no newline ends is kept when it is not empty).
\<close>

definition unlines :: "string list \<Rightarrow> string" where
  "unlines ls = concat (map (\<lambda>l. l @ [LF]) ls)"

fun lines_from :: "string \<Rightarrow> string \<Rightarrow> string list" where
  "lines_from cur [] = (if cur = [] then [] else [cur])"
| "lines_from cur (c # cs) =
     (if c = LF then cur # lines_from [] cs else lines_from (cur @ [c]) cs)"

definition text_lines :: "string \<Rightarrow> string list" where
  "text_lines s = lines_from [] s"

text \<open>The identity the program writes into every commit, without a keyword.\<close>

definition identity :: "int \<Rightarrow> string \<Rightarrow> string" where
  "identity timestamp timezone_offset =
     ''Bocchi! The Rock <bocchi@therock.com> '' @ fmt_d timestamp @ '' '' @ timezone_offset"

text \<open>
  A tree payload as the loop of \<^verbatim>\<open>ls-tree\<close> reads it: entries of a mode that holds no
  space, a name that holds no null byte and twenty digest bytes, written one after the
  other with a space after the mode and a null byte after the name.
\<close>

type_synonym raw_entry = "string \<times> string \<times> string"

definition raw_entry_bytes :: "raw_entry \<Rightarrow> string" where
  "raw_entry_bytes e = (case e of (mode, name, sha) \<Rightarrow> mode @ CHR '' '' # name @ NUL # sha)"

definition complete_entry :: "raw_entry \<Rightarrow> bool" where
  "complete_entry e =
     (case e of (mode, name, sha) \<Rightarrow> CHR '' '' \<notin> set mode \<and> NUL \<notin> set name \<and> length sha = 20)"

definition raw_entry_name :: "raw_entry \<Rightarrow> string" where
  "raw_entry_name e = fst (snd e)"

text \<open>
  A tree entry as \<^verbatim>\<open>hash_dir\<close> builds it (line 99): a mode, a name and the digest of the
  child.
\<close>

type_synonym entry = "nat \<times> string \<times> digest"

definition entry_name :: "entry \<Rightarrow> string" where
  "entry_name e = fst (snd e)"

definition entry_bytes :: "entry \<Rightarrow> string" where
  "entry_bytes e = (case e of (mode, name, sha) \<Rightarrow> tree_entry mode name sha)"


text \<open>
  A store in which nothing is in the way of a write: no file where \<^verbatim>\<open>.git\<close>,
  \<^verbatim>\<open>.git/objects\<close> or a bucket should be a directory, and no directory where an object
  should be a file. The empty working directory is one, and so is the directory after
  \<^verbatim>\<open>init\<close>.
\<close>

definition store_ok :: "fs \<Rightarrow> bool" where
  "store_ok s =
     ((\<forall>b. s [''.git''] \<noteq> Some (FileObj b))
      \<and> (\<forall>b. s [''.git'', ''objects''] \<noteq> Some (FileObj b))
      \<and> (\<forall>x b. s [''.git'', ''objects'', x] \<noteq> Some (FileObj b))
      \<and> (\<forall>x y. s [''.git'', ''objects'', x, y] \<noteq> Some DirObj))"


text \<open>
  The directory of the scenario of C8, a file \<^verbatim>\<open>a.txt\<close> holding \<^verbatim>\<open>x\<close> beside an empty
  directory \<^verbatim>\<open>b\<close>, and the tree object expected for it.
\<close>

definition file_and_empty_dir :: node where
  "file_and_empty_dir = Dir [(''a.txt'', NonDir Regular (Inr ''x'')), (''b'', Dir [])]"

definition file_and_empty_dir_tree :: "codec \<Rightarrow> string" where
  "file_and_empty_dir_tree env =
     ''tree 61'' @ [NUL]
       @ (''100644 a.txt'' @ [NUL] @ digest_bytes (sha1_Sum env (blob_object ''x'')))
       @ (''40000 b'' @ [NUL] @ digest_bytes (sha1_Sum env (''tree 0'' @ [NUL])))"

text \<open>
  An instance of the library parameters and a store, for the examples: the digest of a
  byte sequence is its length, and \<^verbatim>\<open>zlib\<close> stores the bytes as they are.
\<close>

definition example_codec :: codec where
  "example_codec =
     \<lparr>sha1_Sum = (\<lambda>b. of_nat (length b)), zlib_Writer = (\<lambda>b. b), zlib_Reader = (\<lambda>b. Some (b, True))\<rparr>"

definition example_store :: fs where
  "example_store =
     [[''.git''] \<mapsto> DirObj,
      [''.git'', ''objects''] \<mapsto> DirObj,
      [''.git'', ''objects'', ''da''] \<mapsto> DirObj,
      [''.git'', ''objects'', ''da'', ''39a3ee5e6b4b0d3255bfef95601890afd80709''] \<mapsto> FileObj ''old'']"


section \<open>Formatting\<close>

lemma fmt_dec_digits: "set (fmt_dec n) \<subseteq> set ldigits"
proof (induction n rule: fmt_dec.induct)
  case (1 n)
  have d: "\<And>k. k < 10 \<Longrightarrow> ldigits ! k \<in> set ldigits"
    by (rule nth_mem) (simp add: ldigits_def)
  show ?case
  proof (cases "n < 10")
    case True
    then show ?thesis using d [of n] by (subst fmt_dec.simps) simp
  next
    case False
    have "n mod 10 < 10" by simp
    then have "ldigits ! (n mod 10) \<in> set ldigits" by (rule d)
    with False 1 show ?thesis by (subst fmt_dec.simps) simp
  qed
qed

lemma fmt_dec_numeral [simp]:
  "fmt_dec (numeral k) =
     (if (numeral k :: nat) < 10 then [ldigits ! numeral k]
      else fmt_dec (numeral k div 10) @ [ldigits ! (numeral k mod 10)])"
  by (rule fmt_dec.simps)

lemma fmt_dec_0 [simp]: "fmt_dec 0 = ''0''"
  by (simp add: fmt_dec.simps ldigits_def)

lemma fmt_dec_Suc_0 [simp]: "fmt_dec (Suc 0) = ''1''"
  by (simp add: fmt_dec.simps ldigits_def)

lemma fmt_dec_no_LF: "LF \<notin> set (fmt_dec n)"
  using fmt_dec_digits [of n] by (auto simp: ldigits_def)

lemma fmt_dec_no_NUL: "NUL \<notin> set (fmt_dec n)"
  using fmt_dec_digits [of n] by (auto simp: ldigits_def)

lemma fmt_d_no_LF: "LF \<notin> set (fmt_d i)"
  by (simp add: fmt_d_def fmt_dec_no_LF)

lemma length_digest_bytes: "length (digest_bytes d) = 20"
  by (simp add: digest_bytes_def)

lemma length_fmt_x: "length (fmt_x d) = 40"
proof -
  have "\<And>bs. length (concat (map hex_byte bs)) = 2 * length bs"
  proof -
    fix bs show "length (concat (map hex_byte bs)) = 2 * length bs"
      by (induction bs) (simp_all add: hex_byte_def)
  qed
  then show ?thesis by (simp add: fmt_x_def length_digest_bytes)
qed

lemma IndexByte_append_absent:
  "c \<notin> set xs \<Longrightarrow> IndexByte (xs @ c # ys) c = Some (length xs)"
  by (induction xs) auto

lemma IndexByte_absent: "c \<notin> set xs \<Longrightarrow> IndexByte xs c = None"
  by (induction xs) auto

lemma blob_header:
  "IndexByte (blob_object c) NUL = Some (length (''blob '' @ fmt_dec (length c)))"
proof -
  have "NUL \<notin> set (''blob '' @ fmt_dec (length c))"
    by (simp add: fmt_dec_no_NUL)
  from IndexByte_append_absent [OF this, of c]
  show ?thesis by (simp add: blob_object_def)
qed

lemma drop_blob_header:
  "drop (length (''blob '' @ fmt_dec (length c)) + 1) (blob_object c) = c"
  by (simp add: blob_object_def)

lemma IndexByte_Some:
  "IndexByte xs c = Some i \<Longrightarrow>
     i < length xs \<and> xs = take i xs @ c # drop (Suc i) xs \<and> c \<notin> set (take i xs)"
proof (induction xs arbitrary: i)
  case Nil
  then show ?case by simp
next
  case (Cons x xs)
  show ?case
  proof (cases "x = c")
    case True
    with Cons.prems show ?thesis by simp
  next
    case False
    with Cons.prems obtain j where j: "IndexByte xs c = Some j" and i: "i = Suc j"
      by auto
    from Cons.IH [OF j] False i show ?thesis by simp
  qed
qed

lemma fmt_o_digits: "set (fmt_o n) \<subseteq> set ldigits"
proof (induction n rule: fmt_o.induct)
  case (1 n)
  have d: "\<And>k. k < 8 \<Longrightarrow> ldigits ! k \<in> set ldigits"
    by (rule nth_mem) (simp add: ldigits_def)
  show ?case
  proof (cases "n < 8")
    case True
    then show ?thesis using d [of n] by (subst fmt_o.simps) simp
  next
    case False
    have "n mod 8 < 8" by simp
    then have "ldigits ! (n mod 8) \<in> set ldigits" by (rule d)
    with False 1 show ?thesis by (subst fmt_o.simps) simp
  qed
qed

lemma fmt_o_no_space: "CHR '' '' \<notin> set (fmt_o n)"
  using fmt_o_digits [of n] by (auto simp: ldigits_def)

lemma fmt_o_numeral [simp]:
  "fmt_o (numeral k) =
     (if (numeral k :: nat) < 8 then [ldigits ! numeral k]
      else fmt_o (numeral k div 8) @ [ldigits ! (numeral k mod 8)])"
  by (rule fmt_o.simps)

lemma fmt_o_0 [simp]: "fmt_o 0 = ''0''"
  by (simp add: fmt_o.simps ldigits_def)

lemma fmt_o_Suc_0 [simp]: "fmt_o (Suc 0) = ''1''"
  by (simp add: fmt_o.simps ldigits_def)

lemma fmt_o_mode_regular: "fmt_o mode_regular = ''100644''"
  by (simp add: mode_regular_def ldigits_def)

lemma fmt_o_mode_directory: "fmt_o mode_directory = ''40000''"
  by (simp add: mode_directory_def ldigits_def)

lemma entry_key_tree_entry:
  "entry_key (tree_entry mode name sha) = name @ NUL # digest_bytes sha"
proof -
  have "IndexByte (fmt_o mode @ CHR '' '' # name @ NUL # digest_bytes sha) (CHR '' '')
          = Some (length (fmt_o mode))"
    using fmt_o_no_space by (rule IndexByte_append_absent)
  then show ?thesis by (simp add: entry_key_def tree_entry_def)
qed

lemma NUL_less: "c \<noteq> NUL \<Longrightarrow> NUL < c"
proof -
  assume "c \<noteq> NUL"
  then have "of_char c \<noteq> (of_char NUL :: nat)" by (simp only: of_char_eq_iff not_False_eq_True)
  then show ?thesis by (simp add: less_char_def)
qed

lemma key_less:
  "a < b \<Longrightarrow> NUL \<notin> set a \<Longrightarrow> NUL \<notin> set b \<Longrightarrow> a @ NUL # x < b @ NUL # y"
proof (induction a arbitrary: b)
  case Nil
  then obtain c b' where b: "b = c # b'" by (cases b) auto
  with Nil.prems have "NUL < c" by (intro NUL_less) auto
  with b show ?case by simp
next
  case (Cons c a)
  then obtain c' b' where b: "b = c' # b'" by (cases b) auto
  with Cons.prems have "c < c' \<or> c = c' \<and> a < b'" by simp
  then show ?case
  proof
    assume "c < c'"
    with b show ?thesis by simp
  next
    assume h: "c = c' \<and> a < b'"
    with Cons.prems b have "a @ NUL # x < b' @ NUL # y" by (intro Cons.IH) auto
    with h b show ?thesis by simp
  qed
qed

lemma key_eq:
  "a @ NUL # x = b @ NUL # y \<Longrightarrow> NUL \<notin> set a \<Longrightarrow> NUL \<notin> set b \<Longrightarrow> a = b \<and> x = y"
proof (induction a arbitrary: b)
  case Nil
  then show ?case by (cases b) auto
next
  case (Cons c a)
  then show ?case by (cases b) auto
qed

lemma digest_bytes_inj:
  assumes "digest_bytes a = digest_bytes b"
  shows "a = b"
proof (rule bit_word_eqI)
  fix n :: nat
  assume n: "n < LENGTH(160)"
  define q where "q = n div 8"
  define r where "r = n mod 8"
  have q: "q < 20" and r: "r < 8" and nqr: "n = 8 * q + r"
    using n by (simp_all add: q_def r_def)
  then have i: "19 - q \<in> set [0..<20]" by simp
  from assms have "\<forall>i \<in> set [0..<20].
      char_of (unat (drop_bit (8 * (19 - i)) a)) = char_of (unat (drop_bit (8 * (19 - i)) b))"
    unfolding digest_bytes_def by (simp only: map_eq_conv)
  with i have "char_of (unat (drop_bit (8 * (19 - (19 - q))) a))
             = char_of (unat (drop_bit (8 * (19 - (19 - q))) b))"
    by blast
  moreover from q have "19 - (19 - q) = q" by simp
  ultimately have "unat (drop_bit (8 * q) a) mod 256 = unat (drop_bit (8 * q) b) mod 256"
    by simp
  then have "take_bit 8 (unat (drop_bit (8 * q) a)) = take_bit 8 (unat (drop_bit (8 * q) b))"
    by (simp add: take_bit_eq_mod)
  then have "bit (take_bit 8 (unat (drop_bit (8 * q) a))) r
           = bit (take_bit 8 (unat (drop_bit (8 * q) b))) r"
    by simp
  with r have "bit (drop_bit (8 * q) a) r = bit (drop_bit (8 * q) b) r"
    by (simp add: bit_take_bit_iff bit_unsigned_iff)
  then show "bit a n = bit b n"
    using n by (simp add: bit_drop_bit_eq nqr)
qed

lemma ldigits_nth_inj:
  "i < 16 \<Longrightarrow> j < 16 \<Longrightarrow> ldigits ! i = ldigits ! j \<Longrightarrow> i = j"
proof -
  have "distinct ldigits" by (simp add: ldigits_def)
  moreover have "length ldigits = 16" by (simp add: ldigits_def)
  ultimately show "i < 16 \<Longrightarrow> j < 16 \<Longrightarrow> ldigits ! i = ldigits ! j \<Longrightarrow> i = j"
    by (simp add: nth_eq_iff_index_eq)
qed

lemma hex_byte_inj:
  assumes "hex_byte c = hex_byte c'"
  shows "c = c'"
proof -
  have b: "\<And>x. (of_char x :: nat) div 16 < 16"
  proof -
    fix x :: char
    have "(of_char x :: nat) < 16 * 16" by simp
    then show "(of_char x :: nat) div 16 < 16" by (rule less_mult_imp_div_less)
  qed
  have m: "\<And>x. (of_char x :: nat) mod 16 < 16" by simp
  from assms have "ldigits ! (of_char c div 16) = ldigits ! (of_char c' div 16)"
    and "ldigits ! (of_char c mod (16::nat)) = ldigits ! (of_char c' mod (16::nat))"
    by (simp_all add: hex_byte_def)
  then have "(of_char c :: nat) div 16 = of_char c' div 16"
    and "(of_char c :: nat) mod 16 = of_char c' mod 16"
    using b [of c] b [of c'] m [of c] m [of c']
      ldigits_nth_inj [of "of_char c div 16" "of_char c' div 16"]
      ldigits_nth_inj [of "of_char c mod 16" "of_char c' mod 16"]
    by blast+
  then have "(of_char c :: nat) = of_char c'"
    by (metis div_mult_mod_eq)
  then show ?thesis by simp
qed

lemma concat_hex_byte_inj:
  "length xs = length ys \<Longrightarrow> concat (map hex_byte xs) = concat (map hex_byte ys) \<Longrightarrow> xs = ys"
proof (induction xs ys rule: list_induct2)
  case Nil
  show ?case by simp
next
  case (Cons x xs y ys)
  have "length (hex_byte x) = length (hex_byte y)" by (simp add: hex_byte_def)
  moreover from Cons.prems
  have "hex_byte x @ concat (map hex_byte xs) = hex_byte y @ concat (map hex_byte ys)" by simp
  ultimately have "hex_byte x = hex_byte y" and "concat (map hex_byte xs) = concat (map hex_byte ys)"
    by simp_all
  with Cons.IH hex_byte_inj [of x y] show ?case by simp
qed

lemma fmt_x_inj: "fmt_x a = fmt_x b \<Longrightarrow> a = b"
proof -
  assume "fmt_x a = fmt_x b"
  then have "concat (map hex_byte (digest_bytes a)) = concat (map hex_byte (digest_bytes b))"
    by (simp only: fmt_x_def)
  moreover have "length (digest_bytes a) = length (digest_bytes b)"
    by (simp only: length_digest_bytes)
  ultimately have "digest_bytes a = digest_bytes b"
    by (rule concat_hex_byte_inj [rotated])
  then show ?thesis by (rule digest_bytes_inj)
qed

lemma object_path_inj: "object_path a = object_path b \<Longrightarrow> a = b"
proof -
  assume "object_path a = object_path b"
  then have "take 2 a = take 2 b" and "drop 2 a = drop 2 b"
    by (simp_all add: object_path_def)
  then show ?thesis by (metis append_take_drop_id)
qed

section \<open>Facts about the file system\<close>

lemma MkdirAll_above:
  "MkdirAll pre cs s = (r, s') \<Longrightarrow> length q \<le> length pre \<Longrightarrow> s' q = s q"
proof (induction cs arbitrary: pre s)
  case Nil
  then show ?case by simp
next
  case (Cons c cs)
  have ne: "q \<noteq> pre @ [c]" using Cons.prems(2) by auto
  show ?case
  proof (cases "s (pre @ [c])")
    case None
    with Cons.prems have "MkdirAll (pre @ [c]) cs (s(pre @ [c] \<mapsto> DirObj)) = (r, s')" by simp
    from Cons.IH [OF this] Cons.prems(2) have "s' q = (s(pre @ [c] \<mapsto> DirObj)) q" by simp
    with ne show ?thesis by simp
  next
    case (Some ob)
    show ?thesis
    proof (cases ob)
      case (FileObj b)
      with Some Cons.prems show ?thesis by simp
    next
      case DirObj
      with Some Cons.prems have "MkdirAll (pre @ [c]) cs s = (r, s')" by simp
      from Cons.IH [OF this] Cons.prems(2) show ?thesis by simp
    qed
  qed
qed

lemma MkdirAll_grows:
  "MkdirAll pre cs s = (r, s') \<Longrightarrow> s' q = s q \<or> (s q = None \<and> s' q = Some DirObj)"
proof (induction cs arbitrary: pre s)
  case Nil
  then show ?case by simp
next
  case (Cons c cs)
  show ?case
  proof (cases "s (pre @ [c])")
    case None
    with Cons.prems have "MkdirAll (pre @ [c]) cs (s(pre @ [c] \<mapsto> DirObj)) = (r, s')" by simp
    from Cons.IH [OF this] None show ?thesis by (auto split: if_splits)
  next
    case (Some ob)
    show ?thesis
    proof (cases ob)
      case (FileObj b)
      with Some Cons.prems show ?thesis by simp
    next
      case DirObj
      with Some Cons.prems have "MkdirAll (pre @ [c]) cs s = (r, s')" by simp
      from Cons.IH [OF this] show ?thesis .
    qed
  qed
qed

lemma MkdirAll_keeps: "MkdirAll pre cs s = (r, s') \<Longrightarrow> s q = Some ob \<Longrightarrow> s' q = Some ob"
  using MkdirAll_grows [of pre cs s r s' q] by auto

lemma MkdirAll_ok:
  "MkdirAll pre cs s = (None, s') \<Longrightarrow> lookup s' pre cs = Inr DirObj"
proof (induction cs arbitrary: pre s)
  case Nil
  then show ?case by simp
next
  case (Cons c cs)
  show ?case
  proof (cases "s (pre @ [c])")
    case None
    with Cons.prems have m: "MkdirAll (pre @ [c]) cs (s(pre @ [c] \<mapsto> DirObj)) = (None, s')" by simp
    from MkdirAll_above [OF m, of "pre @ [c]"] have "s' (pre @ [c]) = Some DirObj" by simp
    with Cons.IH [OF m] show ?thesis by simp
  next
    case (Some ob)
    show ?thesis
    proof (cases ob)
      case (FileObj b)
      with Some Cons.prems show ?thesis by simp
    next
      case DirObj
      with Some Cons.prems have m: "MkdirAll (pre @ [c]) cs s = (None, s')" by simp
      from MkdirAll_above [OF m, of "pre @ [c]"] Some DirObj have "s' (pre @ [c]) = Some DirObj" by simp
      with Cons.IH [OF m] show ?thesis by simp
    qed
  qed
qed

lemma MkdirAll_fails:
  "MkdirAll pre cs s = (Some e, s') \<Longrightarrow>
     e = ENOTDIR \<and> (lookup s' pre cs = Inl ENOTDIR \<or> (\<exists>b. lookup s' pre cs = Inr (FileObj b)))"
proof (induction cs arbitrary: pre s)
  case Nil
  then show ?case by simp
next
  case (Cons c cs)
  show ?case
  proof (cases "s (pre @ [c])")
    case None
    with Cons.prems have m: "MkdirAll (pre @ [c]) cs (s(pre @ [c] \<mapsto> DirObj)) = (Some e, s')" by simp
    from MkdirAll_above [OF m, of "pre @ [c]"] have "s' (pre @ [c]) = Some DirObj" by simp
    with Cons.IH [OF m] show ?thesis by simp
  next
    case (Some ob)
    show ?thesis
    proof (cases ob)
      case (FileObj b)
      with Some Cons.prems show ?thesis by auto
    next
      case DirObj
      with Some Cons.prems have m: "MkdirAll (pre @ [c]) cs s = (Some e, s')" by simp
      from MkdirAll_above [OF m, of "pre @ [c]"] Some DirObj have "s' (pre @ [c]) = Some DirObj" by simp
      with Cons.IH [OF m] show ?thesis by simp
    qed
  qed
qed

lemma lookup_snoc:
  "lookup s pre (xs @ [c]) =
     (case lookup s pre xs of
        Inl e \<Rightarrow> Inl e
      | Inr (FileObj b) \<Rightarrow> Inl ENOTDIR
      | Inr DirObj \<Rightarrow> (case s (pre @ xs @ [c]) of None \<Rightarrow> Inl ENOENT | Some ob \<Rightarrow> Inr ob))"
proof (induction xs arbitrary: pre)
  case Nil
  show ?case by (simp split: option.splits fobj.splits)
next
  case (Cons x xs)
  show ?case
    using Cons.IH [of "pre @ [x]"]
    by (simp split: option.splits fobj.splits)
qed

lemma lookup_frame:
  "(\<And>k. 1 \<le> k \<Longrightarrow> k \<le> length cs \<Longrightarrow> s' (pre @ take k cs) = s (pre @ take k cs)) \<Longrightarrow>
   lookup s' pre cs = lookup s pre cs"
proof (induction cs arbitrary: pre)
  case Nil
  show ?case by simp
next
  case (Cons c cs)
  have h: "s' (pre @ [c]) = s (pre @ [c])"
    using Cons.prems [of 1] by simp
  have "\<And>k. 1 \<le> k \<Longrightarrow> k \<le> length cs \<Longrightarrow>
          s' ((pre @ [c]) @ take k cs) = s ((pre @ [c]) @ take k cs)"
    using Cons.prems [of "Suc k" for k] by simp
  from Cons.IH [OF this] h show ?case by (simp split: option.splits fobj.splits)
qed

lemma lookup_found:
  "lookup s pre cs = Inr ob \<Longrightarrow> 1 \<le> k \<Longrightarrow> k \<le> length cs \<Longrightarrow>
     s (pre @ take k cs) = Some (if k < length cs then DirObj else ob)"
proof (induction cs arbitrary: pre k)
  case Nil
  then show ?case by simp
next
  case (Cons c cs)
  show ?case
  proof (cases "s (pre @ [c])")
    case None
    with Cons.prems show ?thesis by simp
  next
    case (Some x)
    show ?thesis
    proof (cases x)
      case (FileObj b)
      with Some Cons.prems show ?thesis by (cases k) (auto split: if_splits)
    next
      case DirObj
      with Some Cons.prems have l: "lookup s (pre @ [c]) cs = Inr ob" by simp
      show ?thesis
      proof (cases k)
        case 0
        with Cons.prems show ?thesis by simp
      next
        case (Suc j)
        show ?thesis
        proof (cases "j = 0")
          case True
          show ?thesis
          proof (cases "cs = []")
            case True
            with l have "ob = DirObj" by simp
            with Some DirObj Suc \<open>j = 0\<close> show ?thesis by simp
          next
            case False
            with Some DirObj Suc \<open>j = 0\<close> show ?thesis by simp
          qed
        next
          case False
          with Suc Cons.prems have "1 \<le> j" "j \<le> length cs" by simp_all
          from Cons.IH [OF l this] Suc show ?thesis by simp
        qed
      qed
    qed
  qed
qed


lemma object_path_snoc: "object_path sha = bucket_path sha @ [drop 2 sha]"
  by (simp add: object_path_def bucket_path_def)

lemma butlast_object_path: "butlast (object_path sha) = bucket_path sha"
  by (simp add: object_path_def bucket_path_def)

lemma os_Stat_object_path:
  "os_Stat s (object_path sha) =
     (case os_Stat s (bucket_path sha) of
        Inl e \<Rightarrow> Inl e
      | Inr (FileObj b) \<Rightarrow> Inl ENOTDIR
      | Inr DirObj \<Rightarrow> (case s (object_path sha) of None \<Rightarrow> Inl ENOENT | Some ob \<Rightarrow> Inr ob))"
  unfolding os_Stat_def object_path_snoc
  using lookup_snoc [of s "[]" "bucket_path sha" "drop 2 sha"]
  by (simp split: sum.splits fobj.splits)

lemma os_Stat_bucket_upd:
  "os_Stat (s(object_path sha \<mapsto> v)) (bucket_path sha) = os_Stat s (bucket_path sha)"
  unfolding os_Stat_def
proof (rule lookup_frame)
  fix k :: nat
  have "length (take k (bucket_path sha)) \<noteq> length (object_path sha)"
    by (simp add: object_path_def bucket_path_def)
  then have "take k (bucket_path sha) \<noteq> object_path sha" by metis
  then show "(s(object_path sha \<mapsto> v)) ([] @ take k (bucket_path sha)) = s ([] @ take k (bucket_path sha))"
    by simp
qed

lemma os_WriteFile_object:
  "os_WriteFile (object_path sha) data s =
     (case os_Stat s (bucket_path sha) of
        Inl e \<Rightarrow> (Some e, s)
      | Inr (FileObj b) \<Rightarrow> (Some ENOTDIR, s)
      | Inr DirObj \<Rightarrow>
          (case s (object_path sha) of
             Some DirObj \<Rightarrow> (Some EISDIR, s)
           | _ \<Rightarrow> (None, s(object_path sha \<mapsto> FileObj data))))"
  by (simp add: os_WriteFile_def butlast_object_path)

lemma os_WriteFile_twice:
  "os_WriteFile (object_path sha) data s = (r, s') \<Longrightarrow>
     os_WriteFile (object_path sha) data s' = (r, s') \<and> os_Stat s' (object_path sha) \<noteq> Inl ENOENT
       \<or> (r \<noteq> None \<and> s' = s)"
  unfolding os_WriteFile_object os_Stat_object_path
  by (auto split: sum.splits fobj.splits option.splits simp: os_Stat_bucket_upd)

lemma store_put_idem:
  "store_put sha data (snd (store_put sha data s)) = store_put sha data s"
proof (cases "os_Stat s (object_path sha) = Inl ENOENT")
  case False
  then have p: "store_put sha data s = os_WriteFile (object_path sha) data s"
    by (simp add: store_put_def)
  obtain r s' where w: "os_WriteFile (object_path sha) data s = (r, s')"
    by (cases "os_WriteFile (object_path sha) data s")
  from os_WriteFile_twice [OF w] show ?thesis
  proof
    assume a: "os_WriteFile (object_path sha) data s' = (r, s') \<and> os_Stat s' (object_path sha) \<noteq> Inl ENOENT"
    then have "store_put sha data s' = (r, s')" by (simp add: store_put_def)
    with p w show ?thesis by simp
  next
    assume "r \<noteq> None \<and> s' = s"
    with p w show ?thesis by simp
  qed
next
  case True
  obtain r1 s1 where m: "MkdirAll [] (bucket_path sha) s = (r1, s1)"
    by (cases "MkdirAll [] (bucket_path sha) s")
  show ?thesis
  proof (cases r1)
    case (Some e)
    with True m have p: "store_put sha data s = (Some e, s1)"
      by (simp add: store_put_def os_MkdirAll_def)
    from MkdirAll_fails [of "[]" "bucket_path sha" s e s1] m Some
    have e: "e = ENOTDIR"
      and l: "os_Stat s1 (bucket_path sha) = Inl ENOTDIR \<or> (\<exists>b. os_Stat s1 (bucket_path sha) = Inr (FileObj b))"
      by (simp_all add: os_Stat_def)
    from l have "os_Stat s1 (object_path sha) = Inl ENOTDIR"
      by (auto simp: os_Stat_object_path)
    moreover from l e have "os_WriteFile (object_path sha) data s1 = (Some e, s1)"
      by (auto simp: os_WriteFile_object)
    ultimately have "store_put sha data s1 = (Some e, s1)"
      by (simp add: store_put_def)
    with p show ?thesis by simp
  next
    case None
    with True m have p: "store_put sha data s = os_WriteFile (object_path sha) data s1"
      by (simp add: store_put_def os_MkdirAll_def)
    from MkdirAll_ok [of "[]" "bucket_path sha" s s1] m None
    have d: "os_Stat s1 (bucket_path sha) = Inr DirObj" by (simp add: os_Stat_def)
    obtain r s' where w: "os_WriteFile (object_path sha) data s1 = (r, s')"
      by (cases "os_WriteFile (object_path sha) data s1")
    from os_WriteFile_twice [OF w] show ?thesis
    proof
      assume a: "os_WriteFile (object_path sha) data s' = (r, s') \<and> os_Stat s' (object_path sha) \<noteq> Inl ENOENT"
      then have "store_put sha data s' = (r, s')" by (simp add: store_put_def)
      with p w show ?thesis by simp
    next
      assume a: "r \<noteq> None \<and> s' = s1"
      with w d have "s1 (object_path sha) = Some DirObj"
        by (auto simp: os_WriteFile_object split: option.splits fobj.splits)
      with d have "os_Stat s1 (object_path sha) = Inr DirObj"
        by (simp add: os_Stat_object_path)
      then have "store_put sha data s1 = os_WriteFile (object_path sha) data s1"
        by (simp add: store_put_def)
      with p w a show ?thesis by simp
    qed
  qed
qed

lemma store_put_stored:
  assumes "store_put sha data s = (None, s')"
  shows "os_Read s' (object_path sha) = Inr data"
proof -
  obtain s1 where w: "os_WriteFile (object_path sha) data s1 = (None, s')"
    using assms
    by (auto simp: store_put_def split: if_splits prod.splits option.splits)
  then have "os_Stat s1 (bucket_path sha) = Inr DirObj"
    and "s' = s1(object_path sha \<mapsto> FileObj data)"
    by (auto simp: os_WriteFile_object split: sum.splits fobj.splits option.splits)
  then show ?thesis
    by (simp add: os_Read_def os_Stat_object_path os_Stat_bucket_upd)
qed

lemma store_put_empty:
  "store_put sha data Map.empty =
     (None, [[''.git''] \<mapsto> DirObj, [''.git'', ''objects''] \<mapsto> DirObj,
             bucket_path sha \<mapsto> DirObj, object_path sha \<mapsto> FileObj data])"
  by (simp add: store_put_def os_Stat_def os_MkdirAll_def os_WriteFile_def object_path_def bucket_path_def)

lemma example_store_read:
  "os_Read example_store (object_path ''da39a3ee5e6b4b0d3255bfef95601890afd80709'') = Inr ''old''"
  by (simp add: example_store_def os_Read_def os_Stat_def object_path_def)

lemma store_put_existing:
  assumes "os_Read s (object_path sha) = Inr old"
  shows "store_put sha data s = (None, s(object_path sha \<mapsto> FileObj data))"
proof -
  from assms have st: "os_Stat s (object_path sha) = Inr (FileObj old)"
    by (auto simp: os_Read_def split: sum.splits fobj.splits)
  then have "os_Stat s (bucket_path sha) = Inr DirObj" and "s (object_path sha) = Some (FileObj old)"
    by (auto simp: os_Stat_object_path split: sum.splits fobj.splits option.splits)
  then have "os_WriteFile (object_path sha) data s = (None, s(object_path sha \<mapsto> FileObj data))"
    by (simp add: os_WriteFile_object)
  with st show ?thesis by (simp add: store_put_def)
qed

lemma os_WriteFile_result:
  assumes "os_WriteFile p data s = (r, s')"
  shows "s' = s \<or> (s p \<noteq> Some DirObj \<and> s' = s(p \<mapsto> FileObj data))"
proof (cases "os_Stat s (butlast p)")
  case (Inl e)
  with assms show ?thesis by (simp add: os_WriteFile_def)
next
  case (Inr ob)
  show ?thesis
  proof (cases ob)
    case (FileObj b)
    with Inr assms show ?thesis by (simp add: os_WriteFile_def)
  next
    case DirObj
    show ?thesis
    proof (cases "s p = Some DirObj")
      case True
      with Inr DirObj assms show ?thesis by (simp add: os_WriteFile_def)
    next
      case False
      with Inr DirObj assms have "s' = s(p \<mapsto> FileObj data)"
        by (simp add: os_WriteFile_def split: option.splits fobj.splits)
      with False show ?thesis by simp
    qed
  qed
qed

lemma store_put_frame:
  assumes p: "store_put sha data s = (r, s')"
    and rd: "os_Read s q = Inr x"
    and ne: "q \<noteq> object_path sha"
  shows "os_Read s' q = Inr x"
proof -
  from rd have l: "lookup s [] q = Inr (FileObj x)"
    by (auto simp: os_Read_def os_Stat_def split: sum.splits fobj.splits)
  obtain r1 s1 where m: "(if os_Stat s (object_path sha) = Inl ENOENT
            then os_MkdirAll (bucket_path sha) s else (None, s)) = (r1, s1)"
    by (cases "if os_Stat s (object_path sha) = Inl ENOENT
            then os_MkdirAll (bucket_path sha) s else (None, s)")
  have keep1: "\<And>p ob. s p = Some ob \<Longrightarrow> s1 p = Some ob"
    using m by (auto simp: os_MkdirAll_def split: if_splits dest: MkdirAll_keeps)
  from p m have s': "s' = s1 \<or> (s1 (object_path sha) \<noteq> Some DirObj
        \<and> s' = s1(object_path sha \<mapsto> FileObj data))"
    by (cases r1) (auto simp: store_put_def dest: os_WriteFile_result)
  have "lookup s' [] q = lookup s [] q"
  proof (rule lookup_frame)
    fix k :: nat
    assume k: "1 \<le> k" "k \<le> length q"
    from lookup_found [OF l k]
    have f: "s ([] @ take k q) = Some (if k < length q then DirObj else FileObj x)" .
    then have f1: "s1 ([] @ take k q) = Some (if k < length q then DirObj else FileObj x)"
      by (rule keep1)
    have "[] @ take k q \<noteq> object_path sha \<or> s' = s1"
    proof (cases "k < length q")
      case True
      with f1 have "s1 ([] @ take k q) = Some DirObj" by simp
      with s' show ?thesis by auto
    next
      case False
      with k have "take k q = q" by simp
      with ne show ?thesis by simp
    qed
    with s' have "s' ([] @ take k q) = s1 ([] @ take k q)" by auto
    with f f1 show "s' ([] @ take k q) = s ([] @ take k q)" by simp
  qed
  with l show ?thesis by (simp add: os_Read_def os_Stat_def)
qed

lemma store_ok_empty: "store_ok Map.empty"
  by (simp add: store_ok_def)

lemma dir_or_none: "(\<forall>b. v \<noteq> Some (FileObj b)) \<Longrightarrow> v = None \<or> v = Some DirObj"
proof -
  assume a: "\<forall>b. v \<noteq> Some (FileObj b)"
  show ?thesis
  proof (cases v)
    case None
    then show ?thesis by simp
  next
    case (Some ob)
    with a show ?thesis by (cases ob) simp_all
  qed
qed

lemma MkdirAll_no_file:
  "(\<And>k b. 1 \<le> k \<Longrightarrow> k \<le> length cs \<Longrightarrow> s (pre @ take k cs) \<noteq> Some (FileObj b)) \<Longrightarrow>
     fst (MkdirAll pre cs s) = None"
proof (induction cs arbitrary: pre s)
  case Nil
  show ?case by simp
next
  case (Cons c cs)
  from Cons.prems [of 1] have nf: "\<forall>b. s (pre @ [c]) \<noteq> Some (FileObj b)" by simp
  have rest: "\<And>k b. 1 \<le> k \<Longrightarrow> k \<le> length cs \<Longrightarrow> s ((pre @ [c]) @ take k cs) \<noteq> Some (FileObj b)"
    using Cons.prems [of "Suc k" for k] by simp
  from dir_or_none [of "s (pre @ [c])"] nf have "s (pre @ [c]) = None \<or> s (pre @ [c]) = Some DirObj"
    by blast
  then show ?case
  proof
    assume n: "s (pre @ [c]) = None"
    have "\<And>k b. 1 \<le> k \<Longrightarrow> k \<le> length cs \<Longrightarrow>
        (s(pre @ [c] \<mapsto> DirObj)) ((pre @ [c]) @ take k cs) \<noteq> Some (FileObj b)"
      using rest by simp
    then have "fst (MkdirAll (pre @ [c]) cs (s(pre @ [c] \<mapsto> DirObj))) = None"
      by (rule Cons.IH [where pre = "pre @ [c]" and s = "s(pre @ [c] \<mapsto> DirObj)"])
    with n show ?thesis by simp
  next
    assume d: "s (pre @ [c]) = Some DirObj"
    from rest have "fst (MkdirAll (pre @ [c]) cs s) = None"
      by (rule Cons.IH [where pre = "pre @ [c]" and s = s])
    with d show ?thesis by simp
  qed
qed

lemma MkdirAll_touches:
  "MkdirAll pre cs s = (r, s') \<Longrightarrow> s' q \<noteq> s q \<Longrightarrow>
     \<exists>k. 1 \<le> k \<and> k \<le> length cs \<and> q = pre @ take k cs"
proof (induction cs arbitrary: pre s)
  case Nil
  then show ?case by simp
next
  case (Cons c cs)
  show ?case
  proof (cases "s (pre @ [c])")
    case None
    with Cons.prems have m: "MkdirAll (pre @ [c]) cs (s(pre @ [c] \<mapsto> DirObj)) = (r, s')" by simp
    show ?thesis
    proof (cases "q = pre @ [c]")
      case True
      then have "1 \<le> (1::nat) \<and> 1 \<le> length (c # cs) \<and> q = pre @ take 1 (c # cs)" by simp
      then show ?thesis by blast
    next
      case False
      with Cons.prems(2) have "s' q \<noteq> (s(pre @ [c] \<mapsto> DirObj)) q" by simp
      from Cons.IH [OF m this] obtain k where "1 \<le> k" "k \<le> length cs" "q = (pre @ [c]) @ take k cs"
        by blast
      then have "1 \<le> Suc k \<and> Suc k \<le> length (c # cs) \<and> q = pre @ take (Suc k) (c # cs)" by simp
      then show ?thesis by blast
    qed
  next
    case (Some ob)
    show ?thesis
    proof (cases ob)
      case (FileObj b)
      with Some Cons.prems show ?thesis by simp
    next
      case DirObj
      with Some Cons.prems have m: "MkdirAll (pre @ [c]) cs s = (r, s')" by simp
      from Cons.IH [OF m Cons.prems(2)] obtain k where "1 \<le> k" "k \<le> length cs" "q = (pre @ [c]) @ take k cs"
        by blast
      then have "1 \<le> Suc k \<and> Suc k \<le> length (c # cs) \<and> q = pre @ take (Suc k) (c # cs)" by simp
      then show ?thesis by blast
    qed
  qed
qed

lemma store_ok_prefix:
  assumes "store_ok s" and "1 \<le> k" and "k \<le> 3"
  shows "s (take k (bucket_path sha)) \<noteq> Some (FileObj b)"
proof -
  from assms(2,3) have "k = 1 \<or> k = 2 \<or> k = 3" by arith
  with assms(1) show ?thesis
    by (auto simp: store_ok_def bucket_path_def numeral_2_eq_2 numeral_3_eq_3)
qed

lemma store_put_ok:
  assumes ok: "store_ok s"
  shows "\<exists>s'. store_put sha data s = (None, s') \<and> store_ok s'"
proof -
  obtain r1 s1 where m: "MkdirAll [] (bucket_path sha) s = (r1, s1)"
    by (cases "MkdirAll [] (bucket_path sha) s")
  have lb: "length (bucket_path sha) = 3" by (simp add: bucket_path_def)
  have nf: "\<And>k b. 1 \<le> k \<Longrightarrow> k \<le> length (bucket_path sha) \<Longrightarrow>
      s ([] @ take k (bucket_path sha)) \<noteq> Some (FileObj b)"
  proof -
    fix k :: nat and b
    assume k: "1 \<le> k" "k \<le> length (bucket_path sha)"
    with lb have "k \<le> 3" by simp
    from store_ok_prefix [OF ok k(1) this] show "s ([] @ take k (bucket_path sha)) \<noteq> Some (FileObj b)"
      by simp
  qed
  have "fst (MkdirAll [] (bucket_path sha) s) = None"
    using nf by (rule MkdirAll_no_file)
  with m have r1: "r1 = None" by simp
  have ok1: "store_ok s1"
    unfolding store_ok_def
  proof (intro conjI allI)
    fix x y b
    show "s1 [''.git''] \<noteq> Some (FileObj b)"
      using MkdirAll_grows [OF m, of "[''.git'']"] ok by (auto simp: store_ok_def)
    show "s1 [''.git'', ''objects''] \<noteq> Some (FileObj b)"
      using MkdirAll_grows [OF m, of "[''.git'', ''objects'']"] ok by (auto simp: store_ok_def)
    show "s1 [''.git'', ''objects'', x] \<noteq> Some (FileObj b)"
      using MkdirAll_grows [OF m, of "[''.git'', ''objects'', x]"] ok by (auto simp: store_ok_def)
    show "s1 [''.git'', ''objects'', x, y] \<noteq> Some DirObj"
    proof
      assume a: "s1 [''.git'', ''objects'', x, y] = Some DirObj"
      from ok have "s [''.git'', ''objects'', x, y] \<noteq> Some DirObj"
        by (simp add: store_ok_def)
      with a have "s1 [''.git'', ''objects'', x, y] \<noteq> s [''.git'', ''objects'', x, y]"
        by simp
      from MkdirAll_touches [OF m this] obtain k where "[''.git'', ''objects'', x, y] = [] @ take k (bucket_path sha)"
        by blast
      then have "length [''.git'', ''objects'', x, y] = length (take k (bucket_path sha))" by simp
      with lb show False by simp
    qed
  qed
  from MkdirAll_ok [of "[]" "bucket_path sha" s s1] m r1
  have d1: "os_Stat s1 (bucket_path sha) = Inr DirObj" by (simp add: os_Stat_def)
  \<comment> \<open>the state in which \<^verbatim>\<open>os.WriteFile\<close> runs\<close>
  define s0 where "s0 = (if os_Stat s (object_path sha) = Inl ENOENT then s1 else s)"
  have ok0: "store_ok s0" using ok ok1 by (simp add: s0_def)
  have d0: "os_Stat s0 (bucket_path sha) = Inr DirObj"
  proof (cases "os_Stat s (object_path sha) = Inl ENOENT")
    case True
    with d1 show ?thesis by (simp add: s0_def)
  next
    case False
    show ?thesis
    proof (cases "os_Stat s (bucket_path sha)")
      case (Inl e)
      with False have e: "e \<noteq> ENOENT" by (auto simp: os_Stat_object_path)
      have "\<And>pre cs e. lookup s pre cs = Inl e \<Longrightarrow> e \<noteq> ENOENT \<Longrightarrow>
          \<exists>k b. 1 \<le> k \<and> k \<le> length cs \<and> s (pre @ take k cs) = Some (FileObj b)"
      proof -
        fix pre cs e
        show "lookup s pre cs = Inl e \<Longrightarrow> e \<noteq> ENOENT \<Longrightarrow>
          \<exists>k b. 1 \<le> k \<and> k \<le> length cs \<and> s (pre @ take k cs) = Some (FileObj b)"
        proof (induction cs arbitrary: pre)
          case Nil
          then show ?case by simp
        next
          case (Cons c cs)
          show ?case
          proof (cases "s (pre @ [c])")
            case None
            with Cons.prems show ?thesis by simp
          next
            case (Some ob)
            show ?thesis
            proof (cases ob)
              case (FileObj b)
              with Some have "1 \<le> (1::nat) \<and> 1 \<le> length (c # cs) \<and> s (pre @ take 1 (c # cs)) = Some (FileObj b)"
                by simp
              then show ?thesis by blast
            next
              case DirObj
              with Some Cons.prems have "lookup s (pre @ [c]) cs = Inl e" by simp
              from Cons.IH [OF this Cons.prems(2)] obtain k b where
                "1 \<le> k" "k \<le> length cs" "s ((pre @ [c]) @ take k cs) = Some (FileObj b)" by blast
              then have "1 \<le> Suc k \<and> Suc k \<le> length (c # cs) \<and> s (pre @ take (Suc k) (c # cs)) = Some (FileObj b)"
                by simp
              then show ?thesis by blast
            qed
          qed
        qed
      qed
      from this [of "[]" "bucket_path sha" e] Inl e nf show ?thesis
        by (auto simp: os_Stat_def)
    next
      case (Inr ob)
      show ?thesis
      proof (cases ob)
        case (FileObj b)
        with Inr have "lookup s [] (bucket_path sha) = Inr (FileObj b)" by (simp add: os_Stat_def)
        from lookup_found [OF this, of 3] lb have "s ([] @ take 3 (bucket_path sha)) = Some (FileObj b)"
          by simp
        with nf [of 3 b] lb show ?thesis by simp
      next
        case DirObj
        with Inr show ?thesis by (simp add: s0_def False)
      qed
    qed
  qed
  have p: "store_put sha data s = os_WriteFile (object_path sha) data s0"
    using m r1 by (simp add: store_put_def os_MkdirAll_def s0_def)
  from ok0 have nd: "s0 (object_path sha) \<noteq> Some DirObj"
    by (simp add: store_ok_def object_path_def)
  with d0 have w: "os_WriteFile (object_path sha) data s0 = (None, s0(object_path sha \<mapsto> FileObj data))"
    by (auto simp: os_WriteFile_object split: option.splits fobj.splits)
  have "store_ok (s0(object_path sha \<mapsto> FileObj data))"
    using ok0 by (simp add: store_ok_def object_path_def)
  with p w show ?thesis by simp
qed

section \<open>The commit payload\<close>

lemma lines_from_line:
  "LF \<notin> set l \<Longrightarrow> lines_from cur (l @ LF # rest) = (cur @ l) # lines_from [] rest"
  by (induction l arbitrary: cur) auto

lemma text_lines_unlines:
  "\<forall>l \<in> set ls. LF \<notin> set l \<Longrightarrow> text_lines (unlines ls) = ls"
proof (induction ls)
  case Nil
  show ?case by (simp add: text_lines_def unlines_def)
next
  case (Cons l ls)
  then have "LF \<notin> set l" and "text_lines (unlines ls) = ls" by simp_all
  then show ?case
    using lines_from_line [of l "[]" "unlines ls"]
    by (simp add: text_lines_def unlines_def)
qed

lemma identity_no_LF: "LF \<notin> set tz \<Longrightarrow> LF \<notin> set (identity ts tz)"
  by (simp add: identity_def fmt_d_no_LF)

lemma commit_payload_unlines:
  "commit_payload T P M ts tz =
     unlines ([''tree '' @ T] @ (if P = [] then [] else [''parent '' @ P]) @
       [''author author '' @ identity ts tz, ''committer committer '' @ identity ts tz] @
       (if M = [] then [] else [[], M]))"
  by (simp add: commit_payload_def identity_def unlines_def)

text \<open>
  C2. The payload \<^verbatim>\<open>commit_tree\<close> builds is, line by line: \<^verbatim>\<open>tree T\<close>, then
  \<^verbatim>\<open>parent P\<close> when \<open>P\<close> is not empty, then the author line and the committer line, and
  for a message that is not empty a blank line and the message; every line ends with a
  newline. The author line is the keyword \<^verbatim>\<open>author\<close> followed by a string that already
  starts with \<^verbatim>\<open>author\<close> (lines 146 and 148), and likewise for the committer (lines 147
  and 149): each keyword stands twice, not once.
\<close>

theorem commit_payload_keywords_twice:
  "commit_payload T P M ts tz =
     unlines ([''tree '' @ T] @ (if P = [] then [] else [''parent '' @ P]) @
       [''author '' @ ''author '' @ identity ts tz,
        ''committer '' @ ''committer '' @ identity ts tz] @
       (if M = [] then [] else [[], M]))
   \<and> commit_payload T [] ''init'' ts tz =
       (''tree '' @ T @ [LF])
       @ (''author author Bocchi! The Rock <bocchi@therock.com> '' @ fmt_d ts @ '' '' @ tz @ [LF])
       @ (''committer committer Bocchi! The Rock <bocchi@therock.com> '' @ fmt_d ts @ '' '' @ tz @ [LF])
       @ [LF] @ ''init'' @ [LF]"
  by (simp add: commit_payload_def identity_def unlines_def)

text \<open>
  C9. With an empty message the payload is the tree line, the parent line when a parent is
  given, the author line and the committer line, each ended by a newline, and nothing
  after the committer line's newline. When the tree, the parent and the time zone hold no
  newline, these are all the lines of the payload: none of them is blank.
\<close>

theorem commit_payload_empty_message:
  "commit_payload T P [] ts tz =
     unlines ([''tree '' @ T] @ (if P = [] then [] else [''parent '' @ P]) @
       [''author author '' @ identity ts tz, ''committer committer '' @ identity ts tz])
   \<and> (LF \<notin> set T \<and> LF \<notin> set P \<and> LF \<notin> set tz \<longrightarrow>
       text_lines (commit_payload T P [] ts tz) =
         [''tree '' @ T] @ (if P = [] then [] else [''parent '' @ P]) @
         [''author author '' @ identity ts tz, ''committer committer '' @ identity ts tz]
       \<and> [] \<notin> set (text_lines (commit_payload T P [] ts tz)))"
proof (intro conjI impI)
  show eq: "commit_payload T P [] ts tz =
     unlines ([''tree '' @ T] @ (if P = [] then [] else [''parent '' @ P]) @
       [''author author '' @ identity ts tz, ''committer committer '' @ identity ts tz])"
    by (simp add: commit_payload_unlines)
  assume h: "LF \<notin> set T \<and> LF \<notin> set P \<and> LF \<notin> set tz"
  then have i: "LF \<notin> set (identity ts tz)"
    by (simp add: identity_no_LF)
  have "\<forall>l \<in> set ([''tree '' @ T] @ (if P = [] then [] else [''parent '' @ P]) @
       [''author author '' @ identity ts tz, ''committer committer '' @ identity ts tz]).
       LF \<notin> set l"
    using h i by simp
  then show ls: "text_lines (commit_payload T P [] ts tz) =
         [''tree '' @ T] @ (if P = [] then [] else [''parent '' @ P]) @
         [''author author '' @ identity ts tz, ''committer committer '' @ identity ts tz]"
    unfolding eq by (rule text_lines_unlines)
  show "[] \<notin> set (text_lines (commit_payload T P [] ts tz))"
    unfolding ls by simp
qed

theorem commit_payload_empty_message_witness:
  "LF \<notin> set ''T'' \<and> LF \<notin> set '''' \<and> LF \<notin> set ''+0000'' \<and>
   text_lines (commit_payload ''T'' [] [] 1700000000 ''+0000'') =
     [''tree T'',
      ''author author Bocchi! The Rock <bocchi@therock.com> 1700000000 +0000'',
      ''committer committer Bocchi! The Rock <bocchi@therock.com> 1700000000 +0000'']"
  using commit_payload_empty_message [of "''T''" "[]" 1700000000 "''+0000''"]
  by (simp add: identity_def fmt_d_def ldigits_def text_lines_def unlines_def)

section \<open>Writing to the store\<close>

text \<open>
  C3, as the specification states it, fails: an entry that exists is not skipped. In
  \<open>example_store\<close> the entry of the digest holds \<^verbatim>\<open>old\<close>; after a put of \<^verbatim>\<open>new\<close>
  under the same digest it holds \<^verbatim>\<open>new\<close>, and the store has changed.
\<close>

theorem store_put_replaces_entry:
  "os_Read example_store (object_path ''da39a3ee5e6b4b0d3255bfef95601890afd80709'') = Inr ''old''
   \<and> os_Read (snd (store_put ''da39a3ee5e6b4b0d3255bfef95601890afd80709'' ''new'' example_store))
         (object_path ''da39a3ee5e6b4b0d3255bfef95601890afd80709'') = Inr ''new''
   \<and> snd (store_put ''da39a3ee5e6b4b0d3255bfef95601890afd80709'' ''new'' example_store) \<noteq> example_store"
proof -
  let ?sha = "''da39a3ee5e6b4b0d3255bfef95601890afd80709''"
  have p: "store_put ?sha ''new'' example_store = (None, example_store(object_path ?sha \<mapsto> FileObj ''new''))"
    using example_store_read by (rule store_put_existing)
  have r: "os_Read (snd (store_put ?sha ''new'' example_store)) (object_path ?sha) = Inr ''new''"
    using store_put_stored [OF p] p by simp
  have "snd (store_put ?sha ''new'' example_store) \<noteq> example_store"
  proof
    assume "snd (store_put ?sha ''new'' example_store) = example_store"
    with r example_store_read show False by simp
  qed
  with r example_store_read show ?thesis by simp
qed

text \<open>
  C3, amended. A put onto an entry that exists as a file replaces its bytes
  (\<^verbatim>\<open>os.WriteFile\<close> runs whether or not \<^verbatim>\<open>os.Stat\<close> found the entry); a put that
  succeeds leaves the bytes readable under the digest; and a second put of the same
  bytes under the same digest returns what the first returned and leaves the store as the
  first left it.
\<close>

theorem store_put_overwrites_idempotent:
  "(os_Read s (object_path sha) = Inr old \<longrightarrow>
      store_put sha data s = (None, s(object_path sha \<mapsto> FileObj data)))
   \<and> (fst (store_put sha data s) = None \<longrightarrow>
      os_Read (snd (store_put sha data s)) (object_path sha) = Inr data)
   \<and> store_put sha data (snd (store_put sha data s)) = store_put sha data s"
proof (intro conjI impI)
  assume "os_Read s (object_path sha) = Inr old"
  then show "store_put sha data s = (None, s(object_path sha \<mapsto> FileObj data))"
    by (rule store_put_existing)
next
  assume "fst (store_put sha data s) = None"
  then have "store_put sha data s = (None, snd (store_put sha data s))"
    by (cases "store_put sha data s") simp
  then show "os_Read (snd (store_put sha data s)) (object_path sha) = Inr data"
    by (rule store_put_stored)
next
  show "store_put sha data (snd (store_put sha data s)) = store_put sha data s"
    by (rule store_put_idem)
qed

theorem store_put_overwrites_idempotent_witness:
  "os_Read example_store (object_path ''da39a3ee5e6b4b0d3255bfef95601890afd80709'') = Inr ''old''
   \<and> store_put ''da39a3ee5e6b4b0d3255bfef95601890afd80709'' ''new'' example_store =
       (None, example_store(object_path ''da39a3ee5e6b4b0d3255bfef95601890afd80709'' \<mapsto> FileObj ''new''))
   \<and> store_put ''da39a3ee5e6b4b0d3255bfef95601890afd80709'' ''new''
        (snd (store_put ''da39a3ee5e6b4b0d3255bfef95601890afd80709'' ''new'' example_store)) =
       store_put ''da39a3ee5e6b4b0d3255bfef95601890afd80709'' ''new'' example_store"
  using store_put_overwrites_idempotent [of example_store "''da39a3ee5e6b4b0d3255bfef95601890afd80709''" "''old''" "''new''"]
    example_store_read
  by blast

section \<open>The digest each operation returns\<close>

text \<open>
  C1. \<^verbatim>\<open>commit_tree\<close> computes the digest at line 155, from the payload alone, before
  the header is built at line 160: the digest it returns is the hash of the payload, the
  object it stores under that digest is the header followed by the payload, and the two
  byte sequences differ.
\<close>

theorem commit_tree_digest_of_payload:
  "fst (commit_tree env T P M ts tz s) = Inr d \<Longrightarrow>
     d = sha1_Sum env (commit_payload T P M ts tz)
     \<and> os_Read (snd (commit_tree env T P M ts tz s)) (object_path (fmt_x d)) =
         Inr (zlib_Writer env ((''commit '' @ fmt_dec (length (commit_payload T P M ts tz)) @ [NUL])
                               @ commit_payload T P M ts tz))
     \<and> commit_payload T P M ts tz \<noteq>
         (''commit '' @ fmt_dec (length (commit_payload T P M ts tz)) @ [NUL]) @ commit_payload T P M ts tz"
proof -
  assume a: "fst (commit_tree env T P M ts tz s) = Inr d"
  let ?c = "commit_payload T P M ts tz"
  let ?b = "(''commit '' @ fmt_dec (length ?c) @ [NUL]) @ ?c"
  obtain r s' where p: "store_put (fmt_x (sha1_Sum env ?c)) (zlib_Writer env ?b) s = (r, s')"
    by (cases "store_put (fmt_x (sha1_Sum env ?c)) (zlib_Writer env ?b) s")
  from a p have r: "r = None" and d: "d = sha1_Sum env ?c"
    by (auto simp: commit_tree_def Let_def split: option.splits)
  from p r have s': "snd (commit_tree env T P M ts tz s) = s'"
    by (simp add: commit_tree_def Let_def)
  from store_put_stored p r have "os_Read s' (object_path (fmt_x (sha1_Sum env ?c))) = Inr (zlib_Writer env ?b)"
    by simp
  moreover have "?c \<noteq> ?b"
  proof
    assume "?c = ?b"
    then have "length ?c = length ?b" by simp
    then show False by simp
  qed
  ultimately show ?thesis using d s' by simp
qed

theorem commit_tree_digest_of_payload_witness:
  "fst (commit_tree example_codec ''T'' [] ''init'' 0 ''+0000'' Map.empty) = Inr 139
   \<and> sha1_Sum example_codec (commit_payload ''T'' [] ''init'' 0 ''+0000'') = 139
   \<and> sha1_Sum example_codec
        ((''commit 139'' @ [NUL]) @ commit_payload ''T'' [] ''init'' 0 ''+0000'') = 150"
  using commit_tree_digest_of_payload [of example_codec "''T''" "[]" "''init''" 0 "''+0000''" Map.empty
      "sha1_Sum example_codec (commit_payload ''T'' [] ''init'' 0 ''+0000'')"]
  by (simp add: commit_tree_def Let_def store_put_empty example_codec_def commit_payload_def fmt_d_def
      ldigits_def)

text \<open>
  \<^verbatim>\<open>hash_file\<close> and \<^verbatim>\<open>hash_dir\<close> hash the header followed by the payload, and store
  what they hashed.
\<close>

lemma hash_file_digest:
  "fst (hash_file env (Inr c) s) = Inr d \<Longrightarrow>
     d = sha1_Sum env (blob_object c)
     \<and> os_Read (snd (hash_file env (Inr c) s)) (object_path (fmt_x d)) = Inr (zlib_Writer env (blob_object c))"
proof -
  assume a: "fst (hash_file env (Inr c) s) = Inr d"
  obtain r s' where p: "store_put (fmt_x (sha1_Sum env (blob_object c))) (zlib_Writer env (blob_object c)) s = (r, s')"
    by (cases "store_put (fmt_x (sha1_Sum env (blob_object c))) (zlib_Writer env (blob_object c)) s")
  from a p have r: "r = None" and d: "d = sha1_Sum env (blob_object c)"
    by (auto simp: hash_file_def Let_def split: option.splits)
  from p r have s': "snd (hash_file env (Inr c) s) = s'"
    by (simp add: hash_file_def Let_def)
  from store_put_stored p r s' d show ?thesis by simp
qed


section \<open>\<^verbatim>\<open>hash-object\<close>, then \<^verbatim>\<open>cat-file\<close>\<close>

lemma cat_file_after_hash_object:
  assumes "zlib_Reader env (zlib_Writer env (blob_object C)) = Some (blob_object C, True)"
    and "fst (hash_object env (Inr C) s) = (Returned, out)"
  shows "out = fmt_x (sha1_Sum env (blob_object C)) @ [LF]
     \<and> cat_file env (fmt_x (sha1_Sum env (blob_object C))) (snd (hash_object env (Inr C) s))
         = (Returned, C @ [LF])"
proof -
  let ?sha = "fmt_x (sha1_Sum env (blob_object C))"
  obtain r s' where p: "store_put ?sha (zlib_Writer env (blob_object C)) s = (r, s')"
    by (cases "store_put ?sha (zlib_Writer env (blob_object C)) s")
  from assms(2) p have r: "r = None" and out: "out = ?sha @ [LF]"
    by (auto simp: hash_object_def Let_def blob_object_def split: option.splits)
  from p r have s': "snd (hash_object env (Inr C) s) = s'"
    by (simp add: hash_object_def Let_def blob_object_def)
  from store_put_stored p r have rd: "os_Read s' (object_path ?sha) = Inr (zlib_Writer env (blob_object C))"
    by simp
  have "cat_file env ?sha s' = (Returned, C @ [LF])"
    using rd assms(1) drop_blob_header [of C]
    by (simp add: cat_file_def length_fmt_x blob_header Let_def del: append.simps)
  with out s' show ?thesis by simp
qed

text \<open>
  C7, amended. When \<^verbatim>\<open>zlib\<close> reads back what it wrote for the blob of \<open>C\<close> and
  \<^verbatim>\<open>hash-object\<close> returns, it has printed the digest of the blob in hexadecimal, and
  \<^verbatim>\<open>cat-file\<close> on that digest prints \<open>C\<close> followed by one newline (line 236).
\<close>

theorem hash_object_cat_file:
  assumes "zlib_Reader env (zlib_Writer env (blob_object C)) = Some (blob_object C, True)"
    and "fst (hash_object env (Inr C) s) = (Returned, out)"
  shows "out = fmt_x (sha1_Sum env (blob_object C)) @ [LF]
     \<and> cat_file env (fmt_x (sha1_Sum env (blob_object C))) (snd (hash_object env (Inr C) s))
         = (Returned, C @ [LF])"
  using assms by (rule cat_file_after_hash_object)

theorem hash_object_cat_file_witness:
  "cat_file example_codec (fmt_x (sha1_Sum example_codec (blob_object ''x'')))
     (snd (hash_object example_codec (Inr ''x'') Map.empty)) = (Returned, ''x'' @ [LF])"
  using hash_object_cat_file [of example_codec "''x''" Map.empty "fmt_x (sha1_Sum example_codec (blob_object ''x'')) @ [LF]"]
  by (simp add: hash_object_def Let_def store_put_empty example_codec_def blob_object_def)

text \<open>
  C7, as the specification states it, fails: what \<^verbatim>\<open>cat-file\<close> prints for the content
  \<^verbatim>\<open>x\<close> is not \<^verbatim>\<open>x\<close>.
\<close>

theorem cat_file_appends_newline:
  "snd (cat_file example_codec (fmt_x (sha1_Sum example_codec (blob_object ''x'')))
     (snd (hash_object example_codec (Inr ''x'') Map.empty))) \<noteq> ''x''"
  using cat_file_after_hash_object [of example_codec "''x''" Map.empty "fmt_x (sha1_Sum example_codec (blob_object ''x'')) @ [LF]"]
  by (simp add: hash_object_def Let_def store_put_empty example_codec_def blob_object_def)

section \<open>The loop of \<^verbatim>\<open>ls-tree\<close>\<close>

lemma ls_tree_loop_step:
  assumes "contents \<noteq> []"
    and "IndexByte contents (CHR '' '') = Some i"
    and "IndexByte (drop (Suc i) contents) NUL = Some j"
  shows "ls_tree_loop contents paths =
     (if length (drop (Suc j) (drop (Suc i) contents)) < 20 then Inl SliceBoundsOutOfRange
      else ls_tree_loop (drop 20 (drop (Suc j) (drop (Suc i) contents)))
             (paths @ [take j (drop (Suc i) contents)]))"
proof -
  from IndexByte_Some [OF assms(2)] have li: "length (take i contents) = i" by simp
  from IndexByte_Some [OF assms(3)] have lj: "length (take j (drop (i + 1) contents)) = j"
    by simp
  from assms(3) have a3: "IndexByte (drop (i + 1) contents) NUL = Some j" by simp
  show ?thesis
    by (subst ls_tree_loop.simps)
      (simp only: assms(1,2) a3 li lj Let_def if_False option.case Suc_eq_plus1)
qed

lemma ls_tree_loop_entry:
  assumes "CHR '' '' \<notin> set mode" and "NUL \<notin> set name" and "length sha = 20"
  shows "ls_tree_loop (mode @ CHR '' '' # name @ NUL # sha @ rest) paths
           = ls_tree_loop rest (paths @ [name])"
proof -
  let ?c = "mode @ CHR '' '' # name @ NUL # sha @ rest"
  have i1: "IndexByte ?c (CHR '' '') = Some (length mode)"
    using assms(1) by (rule IndexByte_append_absent)
  have i2: "IndexByte (name @ NUL # sha @ rest) NUL = Some (length name)"
    using assms(2) by (rule IndexByte_append_absent)
  have ne: "?c \<noteq> []" by simp
  show ?thesis
    by (subst ls_tree_loop.simps) (simp add: i1 i2 assms(3) Let_def del: ls_tree_loop.simps)
qed

lemma ls_tree_loop_complete:
  "list_all complete_entry es \<Longrightarrow>
     ls_tree_loop (concat (map raw_entry_bytes es) @ rest) paths
       = ls_tree_loop rest (paths @ map raw_entry_name es)"
proof (induction es arbitrary: paths)
  case Nil
  show ?case by simp
next
  case (Cons e es)
  obtain mode name sha where e: "e = (mode, name, sha)" by (cases e)
  from Cons.prems have r: "list_all complete_entry es" by simp
  from Cons.prems e have c: "CHR '' '' \<notin> set mode" "NUL \<notin> set name" "length sha = 20"
    by (simp_all add: complete_entry_def)
  have "ls_tree_loop (concat (map raw_entry_bytes (e # es)) @ rest) paths
      = ls_tree_loop (mode @ CHR '' '' # name @ NUL # sha @ (concat (map raw_entry_bytes es) @ rest)) paths"
    by (simp add: e raw_entry_bytes_def)
  also have "\<dots> = ls_tree_loop (concat (map raw_entry_bytes es) @ rest) (paths @ [name])"
    using c by (rule ls_tree_loop_entry)
  also have "\<dots> = ls_tree_loop rest ((paths @ [name]) @ map raw_entry_name es)"
    using r by (rule Cons.IH)
  finally show ?case
    using e by (simp add: raw_entry_name_def [of "(mode, name, sha)"])
qed

lemma ls_tree_loop_sound:
  "ls_tree_loop contents paths = Inr r \<Longrightarrow>
     \<exists>es. list_all complete_entry es \<and> contents = concat (map raw_entry_bytes es)
          \<and> r = paths @ map raw_entry_name es"
proof (induction "length contents" arbitrary: contents paths rule: less_induct)
  case less
  show ?case
  proof (cases "contents = []")
    case True
    with less.prems have "r = paths" by (simp add: ls_tree_loop.simps)
    with True show ?thesis by (intro exI [of _ "[]"]) simp
  next
    case False
    from less.prems False obtain i where i: "IndexByte contents (CHR '' '') = Some i"
      by (subst (asm) ls_tree_loop.simps) (auto split: option.splits)
    let ?mode = "take i contents"
    let ?c1 = "drop (Suc i) contents"
    from IndexByte_Some [OF i] have li: "length ?mode = i"
      and s1: "contents = ?mode @ CHR '' '' # ?c1"
      and m: "CHR '' '' \<notin> set ?mode" by simp_all
    from less.prems False i li obtain j where j: "IndexByte ?c1 NUL = Some j"
      by (subst (asm) ls_tree_loop.simps) (auto simp: Let_def split: option.splits)
    let ?path = "take j ?c1"
    let ?c2 = "drop (Suc j) ?c1"
    from IndexByte_Some [OF j] have s2: "?c1 = ?path @ NUL # ?c2"
      and n: "NUL \<notin> set ?path" by simp_all
    note step = ls_tree_loop_step [OF False i j, of paths]
    from less.prems step have len: "\<not> length ?c2 < 20"
      by (auto split: if_splits)
    with less.prems step have rec: "ls_tree_loop (drop 20 ?c2) (paths @ [?path]) = Inr r"
      by simp
    have "length (drop 20 ?c2) < length contents"
      using False by simp
    from less.hyps [OF this rec]
    obtain es where es: "list_all complete_entry es"
      and c3: "drop 20 ?c2 = concat (map raw_entry_bytes es)"
      and r: "r = (paths @ [?path]) @ map raw_entry_name es"
      by blast
    let ?e = "(?mode, ?path, take 20 ?c2)"
    from len have l20: "length (take 20 ?c2) = 20" by simp
    have ce: "complete_entry ?e"
      unfolding complete_entry_def prod.case using m n l20 by blast
    have s3: "?c2 = take 20 ?c2 @ concat (map raw_entry_bytes es)"
      using c3 by (metis append_take_drop_id)
    have "concat (map raw_entry_bytes (?e # es)) = ?mode @ CHR '' '' # ?path @ NUL # ?c2"
      using s3 by (simp add: raw_entry_bytes_def del: drop_drop)
    also have "\<dots> = ?mode @ CHR '' '' # ?c1" using s2 by simp
    also have "\<dots> = contents" using s1 by simp
    finally have "contents = concat (map raw_entry_bytes (?e # es))" by simp
    moreover from r have "r = paths @ map raw_entry_name (?e # es)"
      by (simp add: raw_entry_name_def)
    moreover from ce es have "list_all complete_entry (?e # es)" by simp
    ultimately show ?thesis by blast
  qed
qed

lemma ls_tree_loop_Nil: "ls_tree_loop [] paths = Inr paths"
  by (simp add: ls_tree_loop.simps)

text \<open>
  The loop returns names exactly when the payload is a sequence of complete entries, and
  then the names of these entries in their order.
\<close>

lemma ls_tree_loop_returns_iff:
  "((\<exists>names. ls_tree_loop contents paths = Inr names) \<longleftrightarrow>
      (\<exists>es. list_all complete_entry es \<and> contents = concat (map raw_entry_bytes es)))
   \<and> (list_all complete_entry es \<longrightarrow>
        ls_tree_loop (concat (map raw_entry_bytes es)) paths = Inr (paths @ map raw_entry_name es))"
proof (intro conjI impI iffI)
  assume "\<exists>names. ls_tree_loop contents paths = Inr names"
  then obtain names where "ls_tree_loop contents paths = Inr names" by blast
  from ls_tree_loop_sound [OF this]
  show "\<exists>es. list_all complete_entry es \<and> contents = concat (map raw_entry_bytes es)"
    by blast
next
  assume "\<exists>es. list_all complete_entry es \<and> contents = concat (map raw_entry_bytes es)"
  then obtain es' where "list_all complete_entry es'" and "contents = concat (map raw_entry_bytes es')"
    by blast
  with ls_tree_loop_complete [of es' "[]" paths]
  have "ls_tree_loop contents paths = Inr (paths @ map raw_entry_name es')"
    by (simp add: ls_tree_loop_Nil)
  then show "\<exists>names. ls_tree_loop contents paths = Inr names" by blast
next
  assume "list_all complete_entry es"
  with ls_tree_loop_complete [of es "[]" paths]
  show "ls_tree_loop (concat (map raw_entry_bytes es)) paths = Inr (paths @ map raw_entry_name es)"
    by (simp add: ls_tree_loop_Nil)
qed

text \<open>
  A payload that holds no space ends before the mode of its first entry does:
  \<^verbatim>\<open>space_index\<close> is \<open>-1\<close> and \<^verbatim>\<open>contents[:space_index]\<close> (line 308) panics.
\<close>

lemma ls_tree_loop_no_space:
  "contents \<noteq> [] \<Longrightarrow> CHR '' '' \<notin> set contents \<Longrightarrow>
     ls_tree_loop contents paths = Inl SliceBoundsOutOfRange"
  by (simp add: ls_tree_loop.simps IndexByte_absent)

text \<open>
  A stored tree whose payload ends inside the digest of its entry: the loop and the
  command end in the panic of \<^verbatim>\<open>contents[:20]\<close> (line 316).
\<close>

lemma ls_tree_truncated_tree:
  "ls_tree_loop (''100644 a.txt'' @ [NUL] @ ''0123456789'') [] = Inl SliceBoundsOutOfRange
   \<and> ls_tree example_codec ''da39a3ee5e6b4b0d3255bfef95601890afd80709''
       (snd (store_put ''da39a3ee5e6b4b0d3255bfef95601890afd80709''
              (''tree 23'' @ [NUL] @ ''100644 a.txt'' @ [NUL] @ ''0123456789'') Map.empty))
     = (Panicked, [])"
proof -
  let ?sha = "''da39a3ee5e6b4b0d3255bfef95601890afd80709''"
  let ?obj = "''tree 23'' @ [NUL] @ ''100644 a.txt'' @ [NUL] @ ''0123456789''"
  have l: "ls_tree_loop (''100644 a.txt'' @ [NUL] @ ''0123456789'') [] = Inl SliceBoundsOutOfRange"
    by (simp add: ls_tree_loop.simps)
  have "store_put ?sha ?obj Map.empty = (None, snd (store_put ?sha ?obj Map.empty))"
    by (simp add: store_put_empty)
  then have r: "os_Read (snd (store_put ?sha ?obj Map.empty)) (object_path ?sha) = Inr ?obj"
    by (rule store_put_stored)
  have h: "ls_tree_loop (strip_header ?obj) [] = Inl SliceBoundsOutOfRange"
    by (simp add: strip_header_def ls_tree_loop.simps)
  have "ls_tree example_codec ?sha (snd (store_put ?sha ?obj Map.empty)) = (Panicked, [])"
    using r h by (simp add: ls_tree_def example_codec_def)
  with l show ?thesis by simp
qed

lemma fmt_x_8: "fmt_x (8 :: digest) = ''0000000000000000000000000000000000000008''"
  by (simp add: fmt_x_def digest_bytes_def hex_byte_def ldigits_def upt_rec drop_bit_eq_div)

text \<open>
  C5, where the program departs from it. Let \<^verbatim>\<open>hash-object\<close> store a content \<open>C\<close>
  that is not empty and holds no space, and print its digest (\<^verbatim>\<open>zlib\<close> reading back
  what it wrote). \<^verbatim>\<open>ls-tree\<close> on that digest reads the object, cuts the header and
  parses \<open>C\<close> as a tree payload, which ends before its first entry is complete: the
  command ends in a run-time panic (slice bounds out of range, line 308) and prints
  nothing. It does not end with an error, as it does by \<^verbatim>\<open>os.Exit(1)\<close> when the object
  cannot be opened or decompressed (lines 283-299).
\<close>

theorem ls_tree_blob_digest_panics:
  assumes z: "zlib_Reader env (zlib_Writer env (''blob '' @ fmt_dec (length C) @ NUL # C))
      = Some (''blob '' @ fmt_dec (length C) @ NUL # C, True)"
    and h: "fst (hash_object env (Inr C) s) = (Returned, out)"
    and ne: "C \<noteq> []" and sp: "CHR '' '' \<notin> set C"
  shows "out = fmt_x (sha1_Sum env (''blob '' @ fmt_dec (length C) @ NUL # C)) @ [LF]
     \<and> ls_tree env (fmt_x (sha1_Sum env (''blob '' @ fmt_dec (length C) @ NUL # C)))
         (snd (hash_object env (Inr C) s)) = (Panicked, [])"
proof -
  have b: "''blob '' @ fmt_dec (length C) @ NUL # C = blob_object C"
    by (simp add: blob_object_def)
  let ?sha = "fmt_x (sha1_Sum env (blob_object C))"
  obtain r s' where p: "store_put ?sha (zlib_Writer env (blob_object C)) s = (r, s')"
    by (cases "store_put ?sha (zlib_Writer env (blob_object C)) s")
  from h p have r: "r = None" and out: "out = ?sha @ [LF]"
    by (auto simp: hash_object_def Let_def blob_object_def split: option.splits)
  from p r have s': "snd (hash_object env (Inr C) s) = s'"
    by (simp add: hash_object_def Let_def blob_object_def)
  from store_put_stored p r have rd: "os_Read s' (object_path ?sha) = Inr (zlib_Writer env (blob_object C))"
    by simp
  have st: "strip_header (blob_object C) = C"
    using drop_blob_header [of C] by (simp add: strip_header_def blob_header del: append.simps)
  from ne sp have l: "ls_tree_loop C [] = Inl SliceBoundsOutOfRange"
    by (rule ls_tree_loop_no_space)
  from z have z': "zlib_Reader env (zlib_Writer env (blob_object C)) = Some (blob_object C, True)"
    by (simp only: b)
  have "ls_tree env ?sha s' = (Panicked, [])"
    using rd z' st l by (simp add: ls_tree_def length_fmt_x)
  with out s' show ?thesis by (simp only: b)
qed

theorem ls_tree_blob_digest_panics_witness:
  "fst (hash_object example_codec (Inr ''x'') Map.empty)
     = (Returned, ''0000000000000000000000000000000000000008'' @ [LF])
   \<and> ls_tree example_codec ''0000000000000000000000000000000000000008''
       (snd (hash_object example_codec (Inr ''x'') Map.empty)) = (Panicked, [])"
proof -
  have d: "sha1_Sum example_codec (''blob '' @ fmt_dec (length ''x'') @ NUL # ''x'') = 8"
    by (simp add: example_codec_def)
  have z: "zlib_Reader example_codec (zlib_Writer example_codec (''blob '' @ fmt_dec (length ''x'') @ NUL # ''x''))
      = Some (''blob '' @ fmt_dec (length ''x'') @ NUL # ''x'', True)"
    by (simp add: example_codec_def)
  have h: "fst (hash_object example_codec (Inr ''x'') Map.empty) = (Returned, fmt_x 8 @ [LF])"
    by (simp add: hash_object_def Let_def store_put_empty example_codec_def)
  have ne: "''x'' \<noteq> []" and sp: "CHR '' '' \<notin> set ''x''" by simp_all
  from ls_tree_blob_digest_panics [OF z h ne sp] h show ?thesis
    by (simp only: d fmt_x_8)
qed

section \<open>The order of a tree's entries\<close>

lemma sort_Slice_unique:
  "mset ys = mset entries \<Longrightarrow> sorted (map entry_key ys) \<Longrightarrow> inj_on entry_key (set entries) \<Longrightarrow>
     sort_Slice entries = ys"
  unfolding sort_Slice_def by (rule sort_key_inj_key_eq) simp_all

lemma map_sort_key: "map f (sort_key f xs) = sort (map f xs)"
  by (rule properties_for_sort [symmetric]) simp_all

lemma entry_key_bytes: "entry_key (entry_bytes e) = entry_name e @ NUL # digest_bytes (snd (snd e))"
  by (cases e) (simp add: entry_bytes_def entry_name_def entry_key_tree_entry)

lemma sort_Slice_by_name:
  assumes d: "distinct (map entry_name es)" and n: "\<forall>e \<in> set es. NUL \<notin> set (entry_name e)"
  shows "sort_Slice (map entry_bytes es) = map entry_bytes (sort_key entry_name es)"
proof (rule sort_Slice_unique)
  let ?l = "sort_key entry_name es"
  show "mset (map entry_bytes ?l) = mset (map entry_bytes es)" by simp
  from d have inj: "inj_on entry_name (set es)" by (simp add: distinct_map)
  show "inj_on entry_key (set (map entry_bytes es))"
  proof (rule inj_onI)
    fix u v
    assume "u \<in> set (map entry_bytes es)" and "v \<in> set (map entry_bytes es)"
    then obtain e1 e2 where e: "e1 \<in> set es" "e2 \<in> set es" "u = entry_bytes e1" "v = entry_bytes e2"
      by auto
    assume "entry_key u = entry_key v"
    with e have "entry_name e1 @ NUL # digest_bytes (snd (snd e1))
               = entry_name e2 @ NUL # digest_bytes (snd (snd e2))"
      by (simp add: entry_key_bytes)
    from key_eq [OF this] n e have "entry_name e1 = entry_name e2" by blast
    with inj e have "e1 = e2" by (auto dest: inj_onD)
    with e show "u = v" by simp
  qed
  from d have "distinct (map entry_name ?l)" by (simp add: distinct_map)
  then have "sorted_wrt (<) (map entry_name ?l)" by (simp add: strict_sorted_iff)
  then have "sorted_wrt (\<lambda>x y. entry_name x < entry_name y) ?l" by (simp add: sorted_wrt_map)
  then have "sorted_wrt (\<lambda>x y. entry_key (entry_bytes x) \<le> entry_key (entry_bytes y)) ?l"
  proof (rule sorted_wrt_mono_rel [rotated])
    fix x y
    assume "x \<in> set ?l" and "y \<in> set ?l" and lt: "entry_name x < entry_name y"
    with n have "NUL \<notin> set (entry_name x)" "NUL \<notin> set (entry_name y)" by simp_all
    with lt have "entry_key (entry_bytes x) < entry_key (entry_bytes y)"
      unfolding entry_key_bytes by (intro key_less)
    then show "entry_key (entry_bytes x) \<le> entry_key (entry_bytes y)" by simp
  qed
  then show "sorted (map entry_key (map entry_bytes ?l))"
    by (simp add: sorted_wrt_map o_def)
qed

lemma ls_tree_loop_entries_bytes:
  assumes "\<forall>e \<in> set l. NUL \<notin> set (entry_name e)"
  shows "ls_tree_loop (concat (map entry_bytes l)) [] = Inr (map entry_name l)"
proof -
  let ?raw = "\<lambda>e. case e of (mode, name, sha) \<Rightarrow> (fmt_o mode, name, digest_bytes sha)"
  have b: "map raw_entry_bytes (map ?raw l) = map entry_bytes l"
    by (auto simp: raw_entry_bytes_def entry_bytes_def tree_entry_def)
  have nm: "map raw_entry_name (map ?raw l) = map entry_name l"
    by (auto simp: raw_entry_name_def entry_name_def)
  have c: "list_all complete_entry (map ?raw l)"
    using assms
    by (auto simp: list_all_iff complete_entry_def entry_name_def fmt_o_no_space length_digest_bytes)
  from ls_tree_loop_complete [OF c, of "[]" "[]"] show ?thesis
    by (simp only: b nm append_Nil append_Nil2 ls_tree_loop_Nil)
qed

text \<open>
  C4. For entries with pairwise distinct names (names hold no null byte: the encoding
  ends a name at the first one, and no file name holds one), in any order, the payload
  is the concatenation of the entries sorted by name: the entries are all there, their
  names do not decrease, and the loop of \<^verbatim>\<open>ls-tree\<close> reads the names back in sorted
  order.
\<close>

theorem tree_contents_sorted_by_name:
  assumes "distinct (map entry_name es)" and "\<forall>e \<in> set es. NUL \<notin> set (entry_name e)"
  shows "tree_contents (map entry_bytes es) = concat (map entry_bytes (sort_key entry_name es))
     \<and> mset (sort_key entry_name es) = mset es
     \<and> sorted (map entry_name (sort_key entry_name es))
     \<and> ls_tree_loop (tree_contents (map entry_bytes es)) [] = Inr (sort (map entry_name es))"
proof -
  have c: "tree_contents (map entry_bytes es) = concat (map entry_bytes (sort_key entry_name es))"
    unfolding tree_contents_def using assms by (simp only: sort_Slice_by_name)
  from assms(2) have "\<forall>e \<in> set (sort_key entry_name es). NUL \<notin> set (entry_name e)" by simp
  from ls_tree_loop_entries_bytes [OF this] c
  have "ls_tree_loop (tree_contents (map entry_bytes es)) [] = Inr (sort (map entry_name es))"
    by (simp only: map_sort_key)
  with c show ?thesis by simp
qed

theorem tree_contents_sorted_by_name_witness:
  "distinct (map entry_name [(mode_regular, ''b.txt'', 1), (mode_directory, ''a'', 2)])
   \<and> NUL \<notin> set (entry_name (mode_regular, ''b.txt'', 1))
   \<and> NUL \<notin> set (entry_name (mode_directory, ''a'', 2))
   \<and> tree_contents (map entry_bytes [(mode_regular, ''b.txt'', 1), (mode_directory, ''a'', 2)])
       = concat (map entry_bytes [(mode_directory, ''a'', 2), (mode_regular, ''b.txt'', 1)])
   \<and> ls_tree_loop (tree_contents (map entry_bytes [(mode_regular, ''b.txt'', 1), (mode_directory, ''a'', 2)])) []
       = Inr [''a'', ''b.txt'']"
proof -
  let ?es = "[(mode_regular, ''b.txt'', 1), (mode_directory, ''a'', 2)] :: entry list"
  have h1: "distinct (map entry_name ?es)" by (simp add: entry_name_def)
  have h2: "\<forall>e \<in> set ?es. NUL \<notin> set (entry_name e)" by (simp add: entry_name_def)
  have s: "sort_key entry_name ?es = [(mode_directory, ''a'', 2), (mode_regular, ''b.txt'', 1)]"
    by (simp add: entry_name_def)
  have t: "sort (map entry_name ?es) = [''a'', ''b.txt'']"
    by (simp add: entry_name_def)
  have h3: "NUL \<notin> set (entry_name (mode_regular, ''b.txt'', 1))"
    and h4: "NUL \<notin> set (entry_name (mode_directory, ''a'', 2))"
    by (simp_all add: entry_name_def)
  from tree_contents_sorted_by_name [OF h1 h2] h1 h3 h4 show ?thesis
    unfolding s t by blast
qed

section \<open>What \<^verbatim>\<open>hash_dir\<close> leaves in the store\<close>
















section \<open>A file beside an empty directory\<close>

lemma encode_tree_Nil: "encode_tree [] = ''tree 0'' @ [NUL]"
  by (simp add: encode_tree_def tree_contents_def sort_Slice_def)

lemma encode_tree_file_dir:
  "encode_tree [tree_entry mode_regular ''a.txt'' x, tree_entry mode_directory ''b'' y] =
     ''tree 61'' @ [NUL] @ (''100644 a.txt'' @ [NUL] @ digest_bytes x)
       @ (''40000 b'' @ [NUL] @ digest_bytes y)"
proof -
  have "entry_key (tree_entry mode_regular ''a.txt'' x) \<le> entry_key (tree_entry mode_directory ''b'' y)"
    by (simp add: entry_key_tree_entry)
  then have "sort_Slice [tree_entry mode_regular ''a.txt'' x, tree_entry mode_directory ''b'' y]
      = [tree_entry mode_regular ''a.txt'' x, tree_entry mode_directory ''b'' y]"
    by (simp add: sort_Slice_def)
  then have c: "tree_contents [tree_entry mode_regular ''a.txt'' x, tree_entry mode_directory ''b'' y]
      = (''100644 a.txt'' @ [NUL] @ digest_bytes x) @ (''40000 b'' @ [NUL] @ digest_bytes y)"
    by (simp add: tree_contents_def tree_entry_def fmt_o_mode_regular fmt_o_mode_directory)
  have "length ((''100644 a.txt'' @ [NUL] @ digest_bytes x) @ (''40000 b'' @ [NUL] @ digest_bytes y)) = 61"
    by (simp add: length_digest_bytes)
  with c show ?thesis by (simp add: encode_tree_def ldigits_def length_digest_bytes)
qed

lemma ls_tree_file_dir:
  "ls_tree_loop (strip_header (''tree 61'' @ [NUL] @ (''100644 a.txt'' @ [NUL] @ digest_bytes x)
       @ (''40000 b'' @ [NUL] @ digest_bytes y))) [] = Inr [''a.txt'', ''b'']"
proof -
  have "strip_header (''tree 61'' @ [NUL] @ (''100644 a.txt'' @ [NUL] @ digest_bytes x)
       @ (''40000 b'' @ [NUL] @ digest_bytes y))
      = ''100644'' @ CHR '' '' # ''a.txt'' @ NUL # digest_bytes x
          @ (''40000'' @ CHR '' '' # ''b'' @ NUL # digest_bytes y @ [])"
    by (simp add: strip_header_def)
  moreover have "ls_tree_loop (''100644'' @ CHR '' '' # ''a.txt'' @ NUL # digest_bytes x
          @ (''40000'' @ CHR '' '' # ''b'' @ NUL # digest_bytes y @ [])) []
      = ls_tree_loop (''40000'' @ CHR '' '' # ''b'' @ NUL # digest_bytes y @ []) ([] @ [''a.txt''])"
    by (rule ls_tree_loop_entry) (simp_all add: length_digest_bytes)
  moreover have "ls_tree_loop (''40000'' @ CHR '' '' # ''b'' @ NUL # digest_bytes y @ []) ([] @ [''a.txt''])
      = ls_tree_loop [] (([] @ [''a.txt'']) @ [''b''])"
    by (rule ls_tree_loop_entry) (simp_all add: length_digest_bytes)
  ultimately show ?thesis by (simp only: ls_tree_loop_Nil append_Nil append_Cons)
qed

lemma hash_dir_skips_git:
  "hash_dir env (Dir ((''.git'', git) # files)) s = hash_dir env (Dir files) s"
  by simp

text \<open>
  C8. On a store with nothing in the way, and when the digest of the tree differs from
  the digest of the empty tree, \<^verbatim>\<open>hash_dir\<close> on the directory returns the digest of a
  tree object with two entries, \<^verbatim>\<open>a.txt\<close> with mode 100644 before \<^verbatim>\<open>b\<close> with mode
  40000; the store holds that object under its digest, and under the digest recorded for
  \<^verbatim>\<open>b\<close> it holds the tree object \<^verbatim>\<open>tree 0\0\<close>, which has no entry.
\<close>

theorem hash_dir_file_and_empty_directory:
  assumes ok: "store_ok s"
    and nc: "sha1_Sum env (file_and_empty_dir_tree env) \<noteq> sha1_Sum env (''tree 0'' @ [NUL])"
  shows "fst (hash_dir env file_and_empty_dir s) = Inr (sha1_Sum env (file_and_empty_dir_tree env))
     \<and> os_Read (snd (hash_dir env file_and_empty_dir s))
           (object_path (fmt_x (sha1_Sum env (file_and_empty_dir_tree env))))
         = Inr (zlib_Writer env (file_and_empty_dir_tree env))
     \<and> ls_tree_loop (strip_header (file_and_empty_dir_tree env)) [] = Inr [''a.txt'', ''b'']
     \<and> os_Read (snd (hash_dir env file_and_empty_dir s))
           (object_path (fmt_x (sha1_Sum env (''tree 0'' @ [NUL]))))
         = Inr (zlib_Writer env (''tree 0'' @ [NUL]))
     \<and> ls_tree_loop (strip_header (''tree 0'' @ [NUL])) [] = Inr []"
proof -
  let ?blob = "sha1_Sum env (blob_object ''x'')"
  let ?t0 = "''tree 0'' @ [NUL]"
  let ?root = "file_and_empty_dir_tree env"
  let ?e1 = "tree_entry mode_regular ''a.txt'' ?blob"
  let ?e2 = "tree_entry mode_directory ''b'' (sha1_Sum env ?t0)"
  have root: "encode_tree [?e1, ?e2] = ?root"
    unfolding file_and_empty_dir_tree_def by (rule encode_tree_file_dir)
  from store_put_ok [OF ok] obtain s1 where
    p1: "store_put (fmt_x ?blob) (zlib_Writer env (blob_object ''x'')) s = (None, s1)"
    and ok1: "store_ok s1" by blast
  from store_put_ok [OF ok1] obtain s2 where
    p2: "store_put (fmt_x (sha1_Sum env ?t0)) (zlib_Writer env ?t0) s1 = (None, s2)"
    and ok2: "store_ok s2" by blast
  from store_put_ok [OF ok2] obtain s3 where
    p3: "store_put (fmt_x (sha1_Sum env ?root)) (zlib_Writer env ?root) s2 = (None, s3)"
    by blast
  have f: "hash_file env (Inr ''x'') s = (Inr ?blob, s1)"
    by (simp only: hash_file_def Let_def p1 sum.case prod.case option.case)
  have t0: "write_tree env [] s1 = (Inr (sha1_Sum env ?t0), s2)"
    by (simp only: write_tree_def Let_def encode_tree_Nil p2 prod.case option.case)
  have t: "write_tree env [?e1, ?e2] s2 = (Inr (sha1_Sum env ?root), s3)"
    by (simp only: write_tree_def Let_def root p3 prod.case option.case)
  have e2: "hash_dir env (Dir []) s1 = (Inr (sha1_Sum env ?t0), s2)"
    by (simp add: t0)
  have he: "hash_entries env [(''a.txt'', NonDir Regular (Inr ''x'')), (''b'', Dir [])] [] s
      = (Inr [?e1, ?e2], s2)"
    by (simp add: f e2 del: hash_dir.simps)
  have res: "hash_dir env file_and_empty_dir s = (Inr (sha1_Sum env ?root), s3)"
    by (simp only: file_and_empty_dir_def hash_dir.simps he prod.case sum.case t)
  have r3: "os_Read s3 (object_path (fmt_x (sha1_Sum env ?root))) = Inr (zlib_Writer env ?root)"
    using p3 by (rule store_put_stored)
  have r2: "os_Read s2 (object_path (fmt_x (sha1_Sum env ?t0))) = Inr (zlib_Writer env ?t0)"
    using p2 by (rule store_put_stored)
  have "object_path (fmt_x (sha1_Sum env ?t0)) \<noteq> object_path (fmt_x (sha1_Sum env ?root))"
  proof
    assume "object_path (fmt_x (sha1_Sum env ?t0)) = object_path (fmt_x (sha1_Sum env ?root))"
    then have "fmt_x (sha1_Sum env ?t0) = fmt_x (sha1_Sum env ?root)" by (rule object_path_inj)
    then have "sha1_Sum env ?t0 = sha1_Sum env ?root" by (rule fmt_x_inj)
    with nc show False by simp
  qed
  with p3 r2 have r2': "os_Read s3 (object_path (fmt_x (sha1_Sum env ?t0))) = Inr (zlib_Writer env ?t0)"
    by (rule store_put_frame)
  have l: "ls_tree_loop (strip_header ?root) [] = Inr [''a.txt'', ''b'']"
    unfolding file_and_empty_dir_tree_def by (rule ls_tree_file_dir)
  have l0: "ls_tree_loop (strip_header ?t0) [] = Inr []"
    by (simp add: strip_header_def ls_tree_loop_Nil)
  show ?thesis
    unfolding res fst_conv snd_conv using r3 r2' l l0 by blast
qed

theorem hash_dir_file_and_empty_directory_witness:
  "store_ok Map.empty
   \<and> sha1_Sum example_codec (file_and_empty_dir_tree example_codec) = 69
   \<and> sha1_Sum example_codec (''tree 0'' @ [NUL]) = 7
   \<and> fst (hash_dir example_codec file_and_empty_dir Map.empty) = Inr 69
   \<and> ls_tree_loop (strip_header (file_and_empty_dir_tree example_codec)) [] = Inr [''a.txt'', ''b'']"
proof -
  have e: "sha1_Sum example_codec (''tree 0'' @ [NUL]) = 7"
    by (simp add: example_codec_def)
  have r: "sha1_Sum example_codec (file_and_empty_dir_tree example_codec) = 69"
    by (simp add: example_codec_def file_and_empty_dir_tree_def length_digest_bytes)
  have "(69 :: digest) \<noteq> 7" by simp
  with e r have nc: "sha1_Sum example_codec (file_and_empty_dir_tree example_codec)
      \<noteq> sha1_Sum example_codec (''tree 0'' @ [NUL])" by simp
  from hash_dir_file_and_empty_directory [OF store_ok_empty nc] e r store_ok_empty
  show ?thesis by simp
qed

end
